theory Spec2Isabelle
  imports Complex_Main "HOL-Library.Sublist"
begin

section \<open>JavaScript strings and errors\<close>

text \<open>
  A JavaScript string is a sequence of 16-bit code units. It is modelled as a list of
  natural numbers, one per code unit; \<open>js\<close> embeds an ASCII literal.

  An exception of the source is a value. JavaScript can throw any value: \<open>Error m\<close> is
  an \<open>Error\<close> object (or any object) whose \<open>message\<close> is the string \<open>m\<close>;
  \<open>Primitive\<close> is a string, a number or a boolean thrown as such, whose \<open>message\<close> is
  \<open>undefined\<close>, and likewise an object with no \<open>message\<close>; \<open>Nullish\<close> is \<open>undefined\<close> or
  \<open>null\<close> thrown as such. The cast \<open>error as Error\<close> of the source does nothing when
  the program runs. An object whose \<open>message\<close> is neither a string nor \<open>undefined\<close> is
  not represented.
\<close>

type_synonym jsstring = "nat list"

definition js :: "string \<Rightarrow> jsstring" where
  "js s = map of_char s"

datatype js_error = Error jsstring | Primitive | Nullish

text \<open>
  Reading \<open>(error as Error).message\<close>: the message, \<open>undefined\<close> (\<open>None\<close>) for a
  primitive, and a TypeError thrown for \<open>undefined\<close> and \<open>null\<close>.
\<close>

fun read_message :: "js_error \<Rightarrow> js_error + jsstring option" where
  "read_message (Error m) = Inr (Some m)"
| "read_message Primitive = Inr None"
| "read_message Nullish = Inl (Error (js ''Cannot read properties of undefined (reading message)''))"

text \<open>A message that may be \<open>undefined\<close>, inside a template literal.\<close>

fun template_text :: "jsstring option \<Rightarrow> jsstring" where
  "template_text None = js ''undefined''"
| "template_text (Some m) = m"

text \<open>\<open>String.prototype.includes\<close>: the pattern occurs as a contiguous substring.\<close>

fun str_includes :: "jsstring \<Rightarrow> jsstring \<Rightarrow> bool" where
  "str_includes [] pat = (pat = [])"
| "str_includes (c # cs) pat = (prefix pat (c # cs) \<or> str_includes cs pat)"

section \<open>JavaScript values that come out of JSON\<close>

text \<open>
  The white space of the regular expression class \<open>\s\<close> and of \<open>String.prototype.trim\<close>:
  TAB, LF, VT, FF, CR, space, NBSP, U+1680, U+2000 to U+200A, U+2028, U+2029, U+202F,
  U+205F, U+3000 and U+FEFF.
\<close>

definition is_space :: "nat \<Rightarrow> bool" where
  "is_space c \<longleftrightarrow>
     (if c < 256 then (9 \<le> c \<and> c \<le> 13) \<or> c = 32 \<or> c = 160
      else c = 5760 \<or> (8192 \<le> c \<and> c \<le> 8202) \<or> c = 8232 \<or> c = 8233 \<or> c = 8239 \<or>
           c = 8287 \<or> c = 12288 \<or> c = 65279)"

definition trim :: "jsstring \<Rightarrow> jsstring" where
  "trim s = rev (dropWhile is_space (rev (dropWhile is_space s)))"

text \<open>\<open>Array.prototype.join\<close> on strings.\<close>

fun join :: "jsstring \<Rightarrow> jsstring list \<Rightarrow> jsstring" where
  "join sep [] = []"
| "join sep [x] = x"
| "join sep (x # y # ys) = x @ sep @ join sep (y # ys)"

text \<open>
  The values \<open>JSON.parse\<close> builds. A number is a double in JavaScript; the model keeps
  the rational number the literal denotes. An object is the list of its own properties
  with their values, each key once.
\<close>

datatype json =
    JNull
  | JBool bool
  | JNum rat
  | JStr jsstring
  | JArr "json list"
  | JObj "(jsstring \<times> json) list"

text \<open>
  Reading a property \<open>v.key\<close> for a key that no prototype defines (\<open>summary\<close>,
  \<open>details\<close>, \<open>sources\<close>, \<open>confidence\<close>, \<open>key_findings\<close>): the own property of an
  object, \<open>undefined\<close> (\<open>None\<close>) otherwise.
\<close>

fun get_prop :: "json \<Rightarrow> jsstring \<Rightarrow> json option" where
  "get_prop (JObj kvs) key = map_of kvs key"
| "get_prop _ key = None"

text \<open>Truthiness of a value that may be \<open>undefined\<close>.\<close>

fun truthy :: "json \<Rightarrow> bool" where
  "truthy JNull = False"
| "truthy (JBool b) = b"
| "truthy (JNum q) = (q \<noteq> 0)"
| "truthy (JStr s) = (s \<noteq> [])"
| "truthy (JArr xs) = True"
| "truthy (JObj kvs) = True"

fun truthy_opt :: "json option \<Rightarrow> bool" where
  "truthy_opt None = False"
| "truthy_opt (Some v) = truthy v"

text \<open>
  \<open>String(v)\<close>, the abstract operation ToString. The decimal text of a number
  (Number::toString) is a parameter, \<open>numstr\<close>. An array is converted by
  \<open>Array.prototype.join\<close> with a comma, where \<open>null\<close> elements give the empty string. An
  object built by \<open>JSON.parse\<close> is converted by \<open>Object.prototype.toString\<close> unless it has
  an own property \<open>toString\<close>: that property is not callable, \<open>valueOf\<close> yields no
  primitive, and the conversion throws a TypeError.
\<close>

fun ToString :: "(rat \<Rightarrow> jsstring) \<Rightarrow> json \<Rightarrow> js_error + jsstring"
  and join_json :: "(rat \<Rightarrow> jsstring) \<Rightarrow> jsstring \<Rightarrow> json list \<Rightarrow> js_error + jsstring"
where
  "ToString numstr JNull = Inr (js ''null'')"
| "ToString numstr (JBool b) = Inr (if b then js ''true'' else js ''false'')"
| "ToString numstr (JNum q) = Inr (numstr q)"
| "ToString numstr (JStr s) = Inr s"
| "ToString numstr (JArr xs) = join_json numstr (js '','') xs"
| "ToString numstr (JObj kvs) =
     (if map_of kvs (js ''toString'') \<noteq> None
      then Inl (Error (js ''Cannot convert object to primitive value''))
      else Inr (js ''[object Object]''))"
| "join_json numstr sep [] = Inr []"
| "join_json numstr sep (x # xs) =
     (case (if x = JNull then Inr [] else ToString numstr x) of
        Inl e \<Rightarrow> Inl e
      | Inr s \<Rightarrow>
          (if xs = [] then Inr s
           else (case join_json numstr sep xs of
                   Inl e \<Rightarrow> Inl e
                 | Inr r \<Rightarrow> Inr (s @ sep @ r))))"

text \<open>Decimal digits of a natural number, as in a template literal \<open>${n}\<close>.\<close>

fun digits_of :: "nat \<Rightarrow> jsstring" where
  "digits_of n = (if n < 10 then [48 + n] else digits_of (n div 10) @ [48 + n mod 10])"

declare digits_of.simps [simp del]

text \<open>The validated result, \<open>ExtractedResearch\<close>: \<open>z.infer<typeof ResearchResultSchema>\<close>.\<close>

record ExtractedResearch =
  summary :: jsstring
  details :: json
  sources :: "jsstring list option"
  confidence :: rat

section \<open>\<open>JSON.parse\<close>\<close>

text \<open>
  The host function \<open>JSON.parse\<close>, by the JSON grammar of ECMA-404: white space is
  space, TAB, LF and CR; a value is an object, an array, a string, a number or one of
  \<open>true\<close>, \<open>false\<close>, \<open>null\<close>. A parser returns the value and the rest of the input, or
  \<open>None\<close> where \<open>JSON.parse\<close> throws a SyntaxError.
\<close>

definition is_json_ws :: "nat \<Rightarrow> bool" where
  "is_json_ws c \<longleftrightarrow> c = 32 \<or> c = 9 \<or> c = 10 \<or> c = 13"

definition skip_ws :: "jsstring \<Rightarrow> jsstring" where
  "skip_ws cs = dropWhile is_json_ws cs"

definition is_digit :: "nat \<Rightarrow> bool" where
  "is_digit c \<longleftrightarrow> 48 \<le> c \<and> c \<le> 57"

definition hex_value :: "nat \<Rightarrow> nat option" where
  "hex_value c =
     (if 48 \<le> c \<and> c \<le> 57 then Some (c - 48)
      else if 97 \<le> c \<and> c \<le> 102 then Some (c - 87)
      else if 65 \<le> c \<and> c \<le> 70 then Some (c - 55)
      else None)"

text \<open>
  The escape after a backslash inside a string: the code unit it denotes and the rest.
\<close>

definition parse_escape :: "jsstring \<Rightarrow> (nat \<times> jsstring) option" where
  "parse_escape cs =
     (case cs of
        [] \<Rightarrow> None
      | e # r \<Rightarrow>
          if e = 34 \<or> e = 92 \<or> e = 47 then Some (e, r)
          else if e = 98 then Some (8, r)
          else if e = 102 then Some (12, r)
          else if e = 110 then Some (10, r)
          else if e = 114 then Some (13, r)
          else if e = 116 then Some (9, r)
          else if e = 117 then
            (case r of
               h1 # h2 # h3 # h4 # r' \<Rightarrow>
                 (case (hex_value h1, hex_value h2, hex_value h3, hex_value h4) of
                    (Some a, Some b, Some c, Some d) \<Rightarrow>
                      Some (((a * 16 + b) * 16 + c) * 16 + d, r')
                  | _ \<Rightarrow> None)
             | _ \<Rightarrow> None)
          else None)"

text \<open>The characters of a string after its opening quote, up to the closing quote.\<close>

function parse_string_body :: "jsstring \<Rightarrow> (jsstring \<times> jsstring) option" where
  "parse_string_body [] = None"
| "parse_string_body (c # cs) =
     (if c = 34 then Some ([], cs)
      else if c = 92 then
        (case parse_escape cs of
           None \<Rightarrow> None
         | Some (ch, r) \<Rightarrow>
             (case parse_string_body r of
                None \<Rightarrow> None
              | Some (s, rest) \<Rightarrow> Some (ch # s, rest)))
      else if c < 32 then None
      else
        (case parse_string_body cs of
           None \<Rightarrow> None
         | Some (s, rest) \<Rightarrow> Some (c # s, rest)))"
  by pat_completeness auto
termination
  by (relation "measure length")
     (auto simp: parse_escape_def split: list.splits if_splits option.splits)

definition digits_val :: "jsstring \<Rightarrow> nat" where
  "digits_val ds = foldl (\<lambda>a d. 10 * a + (d - 48)) 0 ds"

text \<open>
  The pieces of a number, each a pair of the characters taken and the rest: at most one
  character out of a few, and a run of digits.
\<close>

definition one_of :: "nat list \<Rightarrow> jsstring \<Rightarrow> jsstring \<times> jsstring" where
  "one_of ks cs =
     (case cs of
        [] \<Rightarrow> ([], [])
      | c # r \<Rightarrow> if c \<in> set ks then ([c], r) else ([], cs))"

definition digit_run :: "jsstring \<Rightarrow> jsstring \<times> jsstring" where
  "digit_run cs = (takeWhile is_digit cs, dropWhile is_digit cs)"

text \<open>
  A number: an optional minus, the integer part (\<open>0\<close>, or digits not starting with
  \<open>0\<close>), an optional fraction (a point and digits) and an optional exponent (\<open>e\<close> or
  \<open>E\<close>, an optional sign and digits).
\<close>

definition parse_number :: "jsstring \<Rightarrow> (rat \<times> jsstring) option" where
  "parse_number cs =
     (let (sg, r0) = one_of [45] cs;
          (ip, r1) = (if fst (one_of [48] r0) \<noteq> [] then one_of [48] r0 else digit_run r0);
          (dot, r2) = one_of [46] r1;
          (fp, r3) = (if dot = [] then ([], r2) else digit_run r2);
          (ex, r4) = one_of [101, 69] r3;
          (es, r5) = (if ex = [] then ([], r4) else one_of [43, 45] r4);
          (ep, r6) = (if ex = [] then ([], r5) else digit_run r5);
          mantissa = of_nat (digits_val ip) + of_nat (digits_val fp) / 10 ^ length fp;
          scaled = (if es = [45] then mantissa / 10 ^ digits_val ep
                    else mantissa * 10 ^ digits_val ep)
      in if ip = [] \<or> (dot \<noteq> [] \<and> fp = []) \<or> (ex \<noteq> [] \<and> ep = []) then None
         else Some (if sg = [] then scaled else - scaled, r6))"

text \<open>
  Defining a property of an object under construction: a key that is there already
  keeps its place and gets the new value.
\<close>

fun set_prop :: "jsstring \<Rightarrow> json \<Rightarrow> (jsstring \<times> json) list \<Rightarrow> (jsstring \<times> json) list" where
  "set_prop k v [] = [(k, v)]"
| "set_prop k v ((k', v') # kvs) =
     (if k = k' then (k, v) # kvs else (k', v') # set_prop k v kvs)"

definition make_object :: "(jsstring \<times> json) list \<Rightarrow> json" where
  "make_object members = JObj (foldl (\<lambda>kvs (k, v). set_prop k v kvs) [] members)"

text \<open>
  Values, the elements of an array after \<open>[\<close> and the members of an object after
  \<open>{\<close>. The recursion is on a counter that bounds its depth; \<open>JSON_parse\<close> starts it
  high enough for the text it is given.
\<close>

fun parse_value :: "nat \<Rightarrow> jsstring \<Rightarrow> (json \<times> jsstring) option"
  and parse_elements :: "nat \<Rightarrow> jsstring \<Rightarrow> (json list \<times> jsstring) option"
  and parse_members :: "nat \<Rightarrow> jsstring \<Rightarrow> ((jsstring \<times> json) list \<times> jsstring) option"
where
  "parse_value 0 cs = None"
| "parse_value (Suc n) cs =
     (case skip_ws cs of
        [] \<Rightarrow> None
      | c # r \<Rightarrow>
          if c = 123 then
            (if skip_ws r \<noteq> [] \<and> hd (skip_ws r) = 125 then Some (JObj [], tl (skip_ws r))
             else (case parse_members n r of
                     None \<Rightarrow> None
                   | Some (members, rest) \<Rightarrow> Some (make_object members, rest)))
          else if c = 91 then
            (if skip_ws r \<noteq> [] \<and> hd (skip_ws r) = 93 then Some (JArr [], tl (skip_ws r))
             else (case parse_elements n r of
                     None \<Rightarrow> None
                   | Some (vs, rest) \<Rightarrow> Some (JArr vs, rest)))
          else if c = 34 then
            (case parse_string_body r of
               None \<Rightarrow> None
             | Some (s, rest) \<Rightarrow> Some (JStr s, rest))
          else if c = 45 \<or> is_digit c then
            (case parse_number (c # r) of
               None \<Rightarrow> None
             | Some (q, rest) \<Rightarrow> Some (JNum q, rest))
          else if prefix (js ''true'') (c # r) then Some (JBool True, drop 4 (c # r))
          else if prefix (js ''false'') (c # r) then Some (JBool False, drop 5 (c # r))
          else if prefix (js ''null'') (c # r) then Some (JNull, drop 4 (c # r))
          else None)"
| "parse_elements 0 cs = None"
| "parse_elements (Suc n) cs =
     (case parse_value n cs of
        None \<Rightarrow> None
      | Some (v, r) \<Rightarrow>
          (case skip_ws r of
             [] \<Rightarrow> None
           | c # r' \<Rightarrow>
               if c = 44 then
                 (case parse_elements n r' of
                    None \<Rightarrow> None
                  | Some (vs, rest) \<Rightarrow> Some (v # vs, rest))
               else if c = 93 then Some ([v], r')
               else None))"
| "parse_members 0 cs = None"
| "parse_members (Suc n) cs =
     (case skip_ws cs of
        [] \<Rightarrow> None
      | q # r \<Rightarrow>
          if q \<noteq> 34 then None
          else
            (case parse_string_body r of
               None \<Rightarrow> None
             | Some (k, r1) \<Rightarrow>
                 (case skip_ws r1 of
                    [] \<Rightarrow> None
                  | c # r2 \<Rightarrow>
                      if c \<noteq> 58 then None
                      else
                        (case parse_value n r2 of
                           None \<Rightarrow> None
                         | Some (v, r3) \<Rightarrow>
                             (case skip_ws r3 of
                                [] \<Rightarrow> None
                              | d # r4 \<Rightarrow>
                                  if d = 44 then
                                    (case parse_members n r4 of
                                       None \<Rightarrow> None
                                     | Some (members, rest) \<Rightarrow> Some ((k, v) # members, rest))
                                  else if d = 125 then Some ([(k, v)], r4)
                                  else None)))))"

text \<open>\<open>JSON.parse(text)\<close>: one value, with nothing but white space after it.\<close>

definition JSON_parse :: "jsstring \<Rightarrow> json option" where
  "JSON_parse text =
     (case parse_value (2 * length text + 1) text of
        None \<Rightarrow> None
      | Some (v, rest) \<Rightarrow> if skip_ws rest = [] then Some v else None)"

section \<open>jsonExtractor.ts\<close>

subsection \<open>The regular expressions\<close>

text \<open>
  Each regular expression of the source is modelled by the function that computes its
  first capture group, \<open>match[1]\<close>, as the backtracking matcher of JavaScript finds it,
  or \<open>None\<close> when the expression does not match.

  \<open>upto_last_close s\<close> is \<open>s\<close> up to its last \<open>}\<close> (empty when it has none).
  \<open>brace_block s\<close> is the group \<open>(\{[\s\S]*\})\<close> matched at the start of \<open>s\<close>: the star
  is greedy and nothing that follows the group constrains it to stop earlier, so the
  group runs from the \<open>{\<close> at the start to the last \<open>}\<close> of the text.
\<close>

definition upto_last_close :: "jsstring \<Rightarrow> jsstring" where
  "upto_last_close s = rev (dropWhile (\<lambda>c. c \<noteq> 125) (rev s))"

definition brace_block :: "jsstring \<Rightarrow> jsstring option" where
  "brace_block s =
     (case s of
        [] \<Rightarrow> None
      | c # r \<Rightarrow> if c = 123 \<and> 125 \<in> set r then Some (upto_last_close s) else None)"

text \<open>
  Matching ignoring case (flag \<open>i\<close>) against a pattern of ASCII letters and quotes: a
  code unit matches a letter of the pattern when it is that letter in lower or in upper
  case (no code unit outside ASCII is canonicalised to an ASCII letter).
\<close>

definition lower :: "nat \<Rightarrow> nat" where
  "lower c = (if 65 \<le> c \<and> c \<le> 90 then c + 32 else c)"

definition prefix_ci :: "jsstring \<Rightarrow> jsstring \<Rightarrow> bool" where
  "prefix_ci pat s \<longleftrightarrow> prefix pat (map lower s)"

text \<open>The text after the leftmost occurrence of \<open>pat\<close>, ignoring case.\<close>

fun after_ci :: "jsstring \<Rightarrow> jsstring \<Rightarrow> jsstring option" where
  "after_ci pat [] = (if pat = [] then Some [] else None)"
| "after_ci pat (c # cs) =
     (if prefix_ci pat (c # cs) then Some (drop (length pat) (c # cs)) else after_ci pat cs)"

text \<open>
  \<open>/(?:json|result|response|output|data)\s*[:=]?\s*(\{[\s\S]*\})/i\<close> tried at the start
  of \<open>s\<close>: one of the labels (no two of them match at the same place), white space, at
  most one \<open>:\<close> or \<open>=\<close>, white space, then the group. \<open>label_pattern\<close> is the match as
  the matcher finds it, at the leftmost position where the expression matches.
\<close>

definition label_at :: "jsstring \<Rightarrow> jsstring option" where
  "label_at s =
     (if prefix_ci (js ''json'') s then Some (drop 4 s)
      else if prefix_ci (js ''result'') s then Some (drop 6 s)
      else if prefix_ci (js ''response'') s then Some (drop 8 s)
      else if prefix_ci (js ''output'') s then Some (drop 6 s)
      else if prefix_ci (js ''data'') s then Some (drop 4 s)
      else None)"

definition label_pattern_at :: "jsstring \<Rightarrow> jsstring option" where
  "label_pattern_at s =
     (case label_at s of
        None \<Rightarrow> None
      | Some r \<Rightarrow>
          (let r1 = dropWhile is_space r;
               r2 = (if r1 \<noteq> [] \<and> (hd r1 = 58 \<or> hd r1 = 61) then tl r1 else r1)
           in brace_block (dropWhile is_space r2)))"

fun label_pattern :: "jsstring \<Rightarrow> jsstring option" where
  "label_pattern [] = None"
| "label_pattern (c # cs) =
     (case label_pattern_at (c # cs) of
        Some m \<Rightarrow> Some m
      | None \<Rightarrow> label_pattern cs)"

text \<open>
  \<open>/(\{[\s\S]*"summary"[\s\S]*"confidence"[\s\S]*\})/i\<close>: the match starts at the first
  \<open>{\<close> of the text (if the expression matches from a later \<open>{\<close>, it matches from the
  first one), and needs \<open>"summary"\<close>, later \<open>"confidence"\<close>, later a \<open>}\<close>.
\<close>

definition summary_pattern :: "jsstring \<Rightarrow> jsstring option" where
  "summary_pattern s =
     (case dropWhile (\<lambda>c. c \<noteq> 123) s of
        [] \<Rightarrow> None
      | c # r \<Rightarrow>
          (case after_ci (34 # js ''summary'' @ [34]) r of
             None \<Rightarrow> None
           | Some r1 \<Rightarrow>
               (case after_ci (34 # js ''confidence'' @ [34]) r1 of
                  None \<Rightarrow> None
                | Some r2 \<Rightarrow> if 125 \<in> set r2 then Some (upto_last_close (c # r)) else None)))"

text \<open>
  \<open>/(\{[\s\S]*\})\s*$/\<close>: from the first \<open>{\<close> of the text to a \<open>}\<close> after which only
  white space is left.
\<close>

definition trailing_pattern :: "jsstring \<Rightarrow> jsstring option" where
  "trailing_pattern s =
     (case dropWhile (\<lambda>c. c \<noteq> 123) s of
        [] \<Rightarrow> None
      | c # r \<Rightarrow>
          (let t = rev (dropWhile is_space (rev r))
           in if t \<noteq> [] \<and> last t = 125 then Some (c # t) else None))"

text \<open>
  The fences. \<open>/^```(?:json|javascript|js)?\s*\n?([\s\S]*?)\n?```$/\<close> matches a text that
  starts with three backquotes and ends with three more. The optional tag takes the
  first of \<open>json\<close>, \<open>javascript\<close>, \<open>js\<close> that is there; \<open>\s*\<close> takes all the white space
  that follows; the lazy group stops before the closing fence, and before a line feed
  that precedes it. \<open>/^```\s*\n?([\s\S]*?)\n?```$/\<close> is the same without the tag.
\<close>

definition strip_tag :: "jsstring \<Rightarrow> jsstring" where
  "strip_tag body =
     (if prefix (js ''json'') body then drop 4 body
      else if prefix (js ''javascript'') body then drop 10 body
      else if prefix (js ''js'') body then drop 2 body
      else body)"

definition fence_group :: "jsstring \<Rightarrow> jsstring" where
  "fence_group inner =
     (let g = dropWhile is_space inner
      in if g \<noteq> [] \<and> last g = 10 then butlast g else g)"

definition fence_body :: "jsstring \<Rightarrow> jsstring option" where
  "fence_body s =
     (if 6 \<le> length s \<and> take 3 s = [96, 96, 96] \<and> drop (length s - 3) s = [96, 96, 96]
      then Some (take (length s - 6) (drop 3 s))
      else None)"

definition tagged_fence :: "jsstring \<Rightarrow> jsstring option" where
  "tagged_fence s = map_option (\<lambda>body. fence_group (strip_tag body)) (fence_body s)"

definition plain_fence :: "jsstring \<Rightarrow> jsstring option" where
  "plain_fence s = map_option fence_group (fence_body s)"

subsection \<open>The functions\<close>

text \<open>
  The loop of \<open>findJSONObject\<close> from index \<open>i\<close> on, over the rest of the text: the
  number of characters from \<open>i\<close> up to and including the \<open>}\<close> at which it returns.
\<close>

fun scan :: "int \<Rightarrow> bool \<Rightarrow> bool \<Rightarrow> jsstring \<Rightarrow> nat option" where
  "scan depth inString escape [] = None"
| "scan depth inString escape (c # cs) =
     (if escape then map_option Suc (scan depth inString False cs)
      else if c = 92 \<and> inString then map_option Suc (scan depth inString True cs)
      else if c = 34 then map_option Suc (scan depth (\<not> inString) False cs)
      else if \<not> inString then
        (if c = 123 then map_option Suc (scan (depth + 1) inString False cs)
         else if c = 125 then
           (if depth - 1 = 0 then Some 1
            else map_option Suc (scan (depth - 1) inString False cs))
         else map_option Suc (scan depth inString False cs))
      else map_option Suc (scan depth inString False cs))"

declare scan.simps [simp del]

definition findJSONObject :: "jsstring \<Rightarrow> jsstring option" where
  "findJSONObject text =
     (case dropWhile (\<lambda>c. c \<noteq> 123) text of
        [] \<Rightarrow> None
      | c # cs \<Rightarrow>
          (case scan 0 False False (c # cs) of
             None \<Rightarrow> None
           | Some k \<Rightarrow> Some (take k (c # cs))))"

text \<open>
  \<open>extractJSONFromText\<close>: the first pattern that matches decides; its group, trimmed,
  is returned when it starts with \<open>{\<close> and ends with \<open>}\<close>.
\<close>

definition looks_like_json :: "jsstring \<Rightarrow> bool" where
  "looks_like_json potential \<longleftrightarrow>
     potential \<noteq> [] \<and> hd potential = 123 \<and> last potential = 125"

fun try_patterns :: "jsstring option list \<Rightarrow> jsstring option" where
  "try_patterns [] = None"
| "try_patterns (None # ms) = try_patterns ms"
| "try_patterns (Some m # ms) =
     (if m \<noteq> [] \<and> looks_like_json (trim m) then Some (trim m) else try_patterns ms)"

definition extractJSONFromText :: "jsstring \<Rightarrow> jsstring option" where
  "extractJSONFromText text =
     try_patterns [label_pattern text, summary_pattern text, trailing_pattern text]"

text \<open>The text \<open>extractJSON\<close> works on: trimmed, and stripped of a fence around it.\<close>

definition clean_text :: "jsstring \<Rightarrow> jsstring" where
  "clean_text text =
     (let cleaned = trim text
      in case tagged_fence cleaned of
           Some g \<Rightarrow> trim g
         | None \<Rightarrow> (case plain_fence cleaned of Some g \<Rightarrow> trim g | None \<Rightarrow> cleaned))"

text \<open>
  \<open>extractJSON\<close>. Its result \<open>T | null\<close> is a value: \<open>JNull\<close> is the \<open>null\<close> it returns
  when it gives up, and the \<open>null\<close> that \<open>JSON.parse\<close> returns for the text \<open>null\<close>.
\<close>

definition extractJSON :: "jsstring \<Rightarrow> json" where
  "extractJSON text =
     (if text = [] then JNull
      else
        (let cleaned = clean_text text
         in case JSON_parse cleaned of
              Some v \<Rightarrow> v
            | None \<Rightarrow>
                (case (case findJSONObject cleaned of
                         None \<Rightarrow> None
                       | Some jsonMatch \<Rightarrow> JSON_parse jsonMatch) of
                   Some v \<Rightarrow> v
                 | None \<Rightarrow>
                     (case (case extractJSONFromText cleaned of
                              None \<Rightarrow> None
                            | Some jsonInText \<Rightarrow> JSON_parse jsonInText) of
                        Some v \<Rightarrow> v
                      | None \<Rightarrow> JNull))))"

text \<open>
  \<open>ResearchResultSchema.safeParse\<close>, by the schema declared in the source: the value is
  an object; \<open>summary\<close> is a string of at least one character; \<open>details\<close> is an object
  (\<open>z.record\<close> copies its entries but for a key \<open>__proto__\<close>), \<open>{}\<close> when absent; \<open>sources\<close>, when present, is an array of strings; \<open>confidence\<close> is
  a number from 0 to 1, \<open>0.5\<close> when absent. \<open>None\<close> is a failed validation.
\<close>

fun all_strings :: "json list \<Rightarrow> jsstring list option" where
  "all_strings [] = Some []"
| "all_strings (JStr s # vs) = map_option ((#) s) (all_strings vs)"
| "all_strings (_ # vs) = None"

definition safeParse :: "json \<Rightarrow> ExtractedResearch option" where
  "safeParse v =
     (case v of
        JObj kvs \<Rightarrow>
          (case map_of kvs (js ''summary'') of
             Some (JStr s) \<Rightarrow>
               (if length s < 1 then None
                else
                  (case (case map_of kvs (js ''details'') of
                           None \<Rightarrow> Some (JObj [])
                         | Some (JObj d) \<Rightarrow>
                             Some (JObj (filter (\<lambda>(k, x). k \<noteq> js ''__proto__'') d))
                         | Some _ \<Rightarrow> None) of
                     None \<Rightarrow> None
                   | Some d \<Rightarrow>
                       (case (case map_of kvs (js ''sources'') of
                                None \<Rightarrow> Some None
                              | Some (JArr xs) \<Rightarrow> map_option Some (all_strings xs)
                              | Some _ \<Rightarrow> None) of
                          None \<Rightarrow> None
                        | Some srcs \<Rightarrow>
                            (case (case map_of kvs (js ''confidence'') of
                                     None \<Rightarrow> Some (1 / 2)
                                   | Some (JNum q) \<Rightarrow> if 0 \<le> q \<and> q \<le> 1 then Some q else None
                                   | Some _ \<Rightarrow> None) of
                               None \<Rightarrow> None
                             | Some q \<Rightarrow>
                                 Some \<lparr>summary = s, details = d, sources = srcs, confidence = q\<rparr>))))
           | _ \<Rightarrow> None)
      | _ \<Rightarrow> None)"

text \<open>\<open>extracted.sources.map(String)\<close>: the conversions in order, the first throw wins.\<close>

fun map_String :: "(rat \<Rightarrow> jsstring) \<Rightarrow> json list \<Rightarrow> js_error + jsstring list" where
  "map_String numstr [] = Inr []"
| "map_String numstr (v # vs) =
     (case ToString numstr v of
        Inl e \<Rightarrow> Inl e
      | Inr s \<Rightarrow> (case map_String numstr vs of Inl e \<Rightarrow> Inl e | Inr ss \<Rightarrow> Inr (s # ss)))"

text \<open>
  The salvage of \<open>extractResearchResult\<close>: the object literal built when the validation
  fails, its properties evaluated in order.
\<close>

definition salvage :: "(rat \<Rightarrow> jsstring) \<Rightarrow> json \<Rightarrow> js_error + ExtractedResearch" where
  "salvage numstr extracted =
     (case ToString numstr
             (case get_prop extracted (js ''summary'') of
                None \<Rightarrow> JStr (js ''Research completed but output was malformed'')
              | Some s \<Rightarrow>
                  if truthy s then s
                  else JStr (js ''Research completed but output was malformed'')) of
        Inl e \<Rightarrow> Inl e
      | Inr summary_text \<Rightarrow>
          (let d = (case get_prop extracted (js ''details'') of
                      None \<Rightarrow> JObj []
                    | Some d \<Rightarrow> if truthy d then d else JObj [])
           in case (case get_prop extracted (js ''sources'') of
                      Some (JArr xs) \<Rightarrow>
                        (case map_String numstr xs of Inl e \<Rightarrow> Inl e | Inr ss \<Rightarrow> Inr (Some ss))
                    | _ \<Rightarrow> Inr None) of
                Inl e \<Rightarrow> Inl e
              | Inr srcs \<Rightarrow>
                  Inr \<lparr>summary = summary_text, details = d, sources = srcs,
                       confidence = (case get_prop extracted (js ''confidence'') of
                                       Some (JNum q) \<Rightarrow> q
                                     | _ \<Rightarrow> 3 / 10)\<rparr>))"

text \<open>
  \<open>extractResearchResult\<close>: \<open>Inl\<close> when it throws, \<open>Inr None\<close> when it returns \<open>null\<close>.
\<close>

definition extractResearchResult ::
  "(rat \<Rightarrow> jsstring) \<Rightarrow> jsstring \<Rightarrow> js_error + ExtractedResearch option"
where
  "extractResearchResult numstr text =
     (let extracted = extractJSON text
      in if \<not> truthy extracted then Inr None
         else
           (case safeParse extracted of
              None \<Rightarrow>
                (case salvage numstr extracted of Inl e \<Rightarrow> Inl e | Inr r \<Rightarrow> Inr (Some r))
            | Some data \<Rightarrow> Inr (Some data)))"

text \<open>\<open>createRepairPrompt\<close>.\<close>

definition createRepairPrompt :: "jsstring \<Rightarrow> jsstring \<Rightarrow> jsstring" where
  "createRepairPrompt originalPrompt malformedResponse =
     js ''The previous response was not valid JSON. Here was the malformed response:'' @ [10, 10]
       @ take 500 malformedResponse
       @ (if length malformedResponse > 500 then js ''...'' else []) @ [10, 10]
       @ js ''Please provide ONLY a valid JSON object with no additional text.'' @ [10]
       @ js ''Original request: '' @ originalPrompt @ [10, 10]
       @ js ''Remember: Output ONLY the JSON object, nothing else.''"

text \<open>
  A text has a brace region when some \<open>{\<close> in it is followed, later, by some \<open>}\<close>: any
  balanced \<open>{\<close>...\<open>}\<close> region is one, and where there is a brace region, the last
  \<open>{\<close> before its \<open>}\<close> opens a balanced one.
\<close>

definition has_brace_region :: "jsstring \<Rightarrow> bool" where
  "has_brace_region s \<longleftrightarrow> 125 \<in> set (dropWhile (\<lambda>c. c \<noteq> 123) s)"

text \<open>
  A piece of text outside any string literal is neutral for the loop of
  \<open>findJSONObject\<close> when the loop, entering it at a depth of at least 1, leaves it at
  the same depth, outside any string, without having returned.
\<close>

definition neutral :: "jsstring \<Rightarrow> bool" where
  "neutral p \<longleftrightarrow>
     (\<forall>d rest. 1 \<le> d \<longrightarrow>
        scan d False False (p @ rest) = map_option (\<lambda>k. length p + k) (scan d False False rest))"

text \<open>
  The rest of a string literal after its opening quote, closing quote included: the
  loop enters it inside the string and leaves it outside.
\<close>

definition closes_string :: "jsstring \<Rightarrow> bool" where
  "closes_string p \<longleftrightarrow>
     (\<forall>d rest.
        scan d True False (p @ rest) = map_option (\<lambda>k. length p + k) (scan d False False rest))"

text \<open>The first \<open>{\<close> of the text \<open>x\<close> starts a copy of \<open>s\<close>.\<close>

definition opens_with :: "jsstring \<Rightarrow> jsstring \<Rightarrow> bool" where
  "opens_with s x \<longleftrightarrow> prefix s (dropWhile (\<lambda>c. c \<noteq> 123) x)"

text \<open>A character that the loop of \<open>findJSONObject\<close> passes over outside a string.\<close>

definition plain :: "nat \<Rightarrow> bool" where
  "plain c \<longleftrightarrow> c \<noteq> 34 \<and> c \<noteq> 123 \<and> c \<noteq> 125"

text \<open>The tags a fence may carry, and a text in a fence on lines of its own.\<close>

definition fence_tags :: "jsstring list" where
  "fence_tags = [[], js ''json'', js ''javascript'', js ''js'']"

definition fenced :: "jsstring \<Rightarrow> jsstring \<Rightarrow> jsstring" where
  "fenced tag s = [96, 96, 96] @ tag @ [10] @ s @ [10, 96, 96, 96]"

section \<open>rateLimiter.ts\<close>

definition DEFAULT_CONCURRENCY :: nat where "DEFAULT_CONCURRENCY = 5"
definition MAX_RETRIES :: nat where "MAX_RETRIES = 3"
definition INITIAL_BACKOFF_MS :: nat where "INITIAL_BACKOFF_MS = 1000"

text \<open>
  The options are JavaScript numbers; the model takes the counts and the duration (in
  milliseconds) as natural numbers.
\<close>

record RateLimiterOptions =
  concurrency :: "nat option"
  maxRetries :: "nat option"
  initialBackoffMs :: "nat option"

text \<open>The limiter that \<open>createRateLimiter\<close> closes over: the options with their defaults.\<close>

record limiter =
  lim_concurrency :: nat
  lim_maxRetries :: nat
  lim_initialBackoffMs :: nat

text \<open>
  \<open>pLimit(concurrency)\<close> of the p-limit package throws a TypeError unless the
  concurrency is an integer from 1 up; everything else only destructures the options.
\<close>

definition createRateLimiter :: "RateLimiterOptions \<Rightarrow> js_error + limiter" where
  "createRateLimiter options =
     (let c = (case concurrency options of None \<Rightarrow> DEFAULT_CONCURRENCY | Some v \<Rightarrow> v);
          r = (case maxRetries options of None \<Rightarrow> MAX_RETRIES | Some v \<Rightarrow> v);
          b = (case initialBackoffMs options of None \<Rightarrow> INITIAL_BACKOFF_MS | Some v \<Rightarrow> v)
      in if c < 1
         then Inl (Error (js ''Expected `concurrency` to be a number from 1 and up''))
         else Inr \<lparr>lim_concurrency = c, lim_maxRetries = r, lim_initialBackoffMs = b\<rparr>)"

definition default_options :: RateLimiterOptions where
  "default_options = \<lparr>concurrency = None, maxRetries = None, initialBackoffMs = None\<rparr>"

definition default_limiter :: limiter where
  "default_limiter = \<lparr>lim_concurrency = 5, lim_maxRetries = 3, lim_initialBackoffMs = 1000\<rparr>"

text \<open>One element of the array \<open>processWithRetry\<close> resolves with: \<open>{item, result, error}\<close>.\<close>

record ('t, 'r) outcome =
  out_item :: 't
  out_result :: "'r option"
  out_error :: "js_error option"

text \<open>
  What one item's task does, in order: it calls the processor (\<open>Attempt k\<close> is the call
  made with loop counter \<open>attempt = k\<close>), it sleeps (\<open>Slept ms\<close>), and the processor and
  the progress callback emit effects of their own (\<open>Emitted e\<close>).
\<close>

datatype 'e step = Attempt nat | Slept nat | Emitted 'e

definition isRateLimit :: "jsstring \<Rightarrow> bool" where
  "isRateLimit msg \<longleftrightarrow>
     str_includes msg (js ''429'') \<or>
     str_includes msg (js ''rate limit'') \<or>
     str_includes msg (js ''too many requests'')"

text \<open>
  The first statement of the \<open>catch\<close> block, \<open>lastError.message.includes(...)\<close>: whether
  the failure is a rate limit, or the TypeError the statement throws when what was
  thrown has no string as its \<open>message\<close>.
\<close>

definition catch_check :: "js_error \<Rightarrow> js_error + bool" where
  "catch_check lastError =
     (case read_message lastError of
        Inl t \<Rightarrow> Inl t
      | Inr None \<Rightarrow>
          Inl (Error (js ''Cannot read properties of undefined (reading includes)''))
      | Inr (Some msg) \<Rightarrow> Inr (isRateLimit msg))"

text \<open>
  The processor is asynchronous and effectful. \<open>processor item index k\<close> is what its call
  on loop counter \<open>k\<close> settles with (\<open>Inl\<close> a rejection, \<open>Inr\<close> the result) together with
  the effects it emitted; every call is made at most once per item and counter, so any
  run of the program, whatever the interleaving of the tasks, is described by one such
  function.

  The callback \<open>onProgress\<close> gets \<open>total\<close>, the item, the result or \<open>null\<close>, and the error
  if any; it returns the exception it throws, if it throws, and the effects it emitted.
  Its first argument \<open>completed\<close> counts the items settled so far across all tasks,
  depends on the interleaving, and is left out. \<open>no_callback\<close> is the absent callback
  of \<open>onProgress?.(...)\<close>.
\<close>

type_synonym ('t, 'r, 'e) processor = "'t \<Rightarrow> nat \<Rightarrow> nat \<Rightarrow> (js_error + 'r) \<times> 'e list"

type_synonym ('t, 'r, 'e) progress =
  "nat \<Rightarrow> 't \<Rightarrow> 'r option \<Rightarrow> js_error option \<Rightarrow> js_error option \<times> 'e list"

definition no_callback :: "('t, 'r, 'e) progress" where
  "no_callback tot item result err = (None, [])"

text \<open>
  The \<open>try\<close> block of one attempt: the processor is awaited and, when it resolves, the
  callback is called inside the same block, so an exception of the callback is caught by
  the same \<open>catch\<close> as a rejection of the processor.
\<close>

definition try_attempt ::
  "('t, 'r, 'e) processor \<Rightarrow> ('t, 'r, 'e) progress \<Rightarrow> nat \<Rightarrow> 't \<Rightarrow> nat \<Rightarrow> nat \<Rightarrow>
   (js_error + 'r) \<times> 'e list"
where
  "try_attempt processor onProgress tot item index attempt =
     (case processor item index attempt of
        (Inl e, es) \<Rightarrow> (Inl e, es)
      | (Inr result, es) \<Rightarrow>
          (case onProgress tot item (Some result) None of
             (None, cs) \<Rightarrow> (Inr result, es @ cs)
           | (Some e, cs) \<Rightarrow> (Inl e, es @ cs)))"

text \<open>
  The rest of the \<open>catch\<close> block: the sleep before the next attempt, if one remains;
  \<open>limited\<close> is \<open>isRateLimit\<close>.
\<close>

definition backoff :: "limiter \<Rightarrow> bool \<Rightarrow> nat \<Rightarrow> 'e step list" where
  "backoff L limited attempt =
     (if limited \<and> int attempt < int (lim_maxRetries L) - 1
      then [Slept (lim_initialBackoffMs L * 2 ^ attempt)]
      else if int attempt < int (lim_maxRetries L) - 1
      then [Slept (lim_initialBackoffMs L)]
      else [])"

text \<open>
  The body of the task \<open>limit(async () => ...)\<close> of one item: the \<open>for\<close> loop over
  \<open>attempt\<close>, entered at \<open>attempt\<close> with \<open>lastError\<close> as it stands, then the code after
  the loop. The task resolves with an outcome (\<open>Inr\<close>) or rejects (\<open>Inl\<close>): an
  exception thrown inside the \<open>catch\<close> block, or by the callback after the loop, is
  caught by nothing.
\<close>

function retry_loop ::
  "limiter \<Rightarrow> ('t, 'r, 'e) processor \<Rightarrow> ('t, 'r, 'e) progress \<Rightarrow>
   nat \<Rightarrow> 't \<Rightarrow> nat \<Rightarrow> nat \<Rightarrow> js_error option \<Rightarrow>
   (js_error + ('t, 'r) outcome) \<times> 'e step list"
where
  "retry_loop L processor onProgress tot item index attempt lastError =
     (if attempt < lim_maxRetries L then
        (case try_attempt processor onProgress tot item index attempt of
           (Inr result, es) \<Rightarrow>
             (Inr \<lparr>out_item = item, out_result = Some result, out_error = None\<rparr>,
              Attempt attempt # map Emitted es)
         | (Inl e, es) \<Rightarrow>
             (case catch_check e of
                Inl t \<Rightarrow> (Inl t, Attempt attempt # map Emitted es)
              | Inr limited \<Rightarrow>
                  (let rest = retry_loop L processor onProgress tot item index
                                (Suc attempt) (Some e)
                   in (fst rest,
                       Attempt attempt # map Emitted es @ backoff L limited attempt @ snd rest))))
      else
        (case onProgress tot item None lastError of
           (None, cs) \<Rightarrow>
             (Inr \<lparr>out_item = item, out_result = None, out_error = lastError\<rparr>,
              map Emitted cs)
         | (Some e, cs) \<Rightarrow> (Inl e, map Emitted cs)))"
  by pat_completeness auto
termination
  by (relation "measure (\<lambda>(L, p, c, t, i, ix, attempt, e). lim_maxRetries L - attempt)") auto

declare retry_loop.simps [simp del]

text \<open>
  \<open>Promise.all\<close> resolves with the values of its promises in the order of the array, and
  rejects when one of them rejects (the model reports the first rejection in the order
  of the array).
\<close>

fun Promise_all :: "(js_error + 'a) list \<Rightarrow> js_error + 'a list" where
  "Promise_all [] = Inr []"
| "Promise_all (Inl e # ps) = Inl e"
| "Promise_all (Inr v # ps) = (case Promise_all ps of Inl e \<Rightarrow> Inl e | Inr vs \<Rightarrow> Inr (v # vs))"

text \<open>
  \<open>processWithRetry\<close>: \<open>Promise.all\<close> over \<open>items.map((item, index) => limit(task))\<close>.
  \<open>run_items\<close> is the list of the tasks, each with what it settles with and its steps.
\<close>

definition run_items ::
  "limiter \<Rightarrow> ('t, 'r, 'e) processor \<Rightarrow> ('t, 'r, 'e) progress \<Rightarrow> 't list \<Rightarrow>
   ((js_error + ('t, 'r) outcome) \<times> 'e step list) list"
where
  "run_items L processor onProgress items =
     map (\<lambda>(item, index). retry_loop L processor onProgress (length items) item index 0 None)
       (zip items [0 ..< length items])"

definition processWithRetry ::
  "limiter \<Rightarrow> ('t, 'r, 'e) processor \<Rightarrow> ('t, 'r, 'e) progress \<Rightarrow> 't list \<Rightarrow>
   js_error + ('t, 'r) outcome list"
where
  "processWithRetry L processor onProgress items =
     Promise_all (map fst (run_items L processor onProgress items))"

text \<open>The calls of the processor in a task's steps, and the delays it slept, in order.\<close>

fun attempts_of :: "'e step list \<Rightarrow> nat list" where
  "attempts_of [] = []"
| "attempts_of (Attempt k # ss) = k # attempts_of ss"
| "attempts_of (_ # ss) = attempts_of ss"

fun delays_of :: "'e step list \<Rightarrow> nat list" where
  "delays_of [] = []"
| "delays_of (Slept d # ss) = d # delays_of ss"
| "delays_of (_ # ss) = delays_of ss"

text \<open>The retries of a task: its calls of the processor after the first one.\<close>

definition retries_of :: "'e step list \<Rightarrow> nat" where
  "retries_of ss = length (attempts_of ss) - 1"

text \<open>A callback that returns normally, whatever it is given.\<close>

definition returns_normally :: "('t, 'r, 'e) progress \<Rightarrow> bool" where
  "returns_normally onProgress \<longleftrightarrow> (\<forall>tot item result err. fst (onProgress tot item result err) = None)"

text \<open>
  The delay the \<open>catch\<close> block prescribes after the attempt with loop counter \<open>j\<close> has
  failed with an error whose message is \<open>msgs j\<close>, when a retry remains.
\<close>

definition delay_rule :: "limiter \<Rightarrow> (nat \<Rightarrow> jsstring) \<Rightarrow> nat \<Rightarrow> nat" where
  "delay_rule L msgs j =
     (if isRateLimit (msgs j) then lim_initialBackoffMs L * 2 ^ j else lim_initialBackoffMs L)"

text \<open>A processor whose rejections are all \<open>Error\<close> objects.\<close>

definition rejects_with_errors :: "('t, 'r, 'e) processor \<Rightarrow> bool" where
  "rejects_with_errors processor \<longleftrightarrow>
     (\<forall>item index attempt e. fst (processor item index attempt) = Inl e \<longrightarrow> (\<exists>m. e = Error m))"

section \<open>mapReduce.ts\<close>

definition MAX_SUMMARY_WORDS :: nat where "MAX_SUMMARY_WORDS = 200"
definition AGGREGATION_CHUNK_SIZE :: nat where "AGGREGATION_CHUNK_SIZE = 5"

text \<open>
  \<open>text.split(/\s+/)\<close>: the pieces between the maximal runs of white space; a run at
  the start or at the end of the text leaves an empty first or last piece.
\<close>

function split_ws :: "jsstring \<Rightarrow> jsstring list" where
  "split_ws s =
     (case dropWhile (\<lambda>c. \<not> is_space c) s of
        [] \<Rightarrow> [s]
      | r # rs \<Rightarrow> takeWhile (\<lambda>c. \<not> is_space c) s # split_ws (dropWhile is_space rs))"
  by pat_completeness auto
termination
proof (relation "measure length")
  fix s :: jsstring and r rs
  assume "dropWhile (\<lambda>c. \<not> is_space c) s = r # rs"
  then have "length (r # rs) \<le> length s"
    by (metis length_dropWhile_le)
  moreover have "length (dropWhile is_space rs) \<le> length rs"
    by (rule length_dropWhile_le)
  ultimately show "(dropWhile is_space rs, s) \<in> measure length"
    by simp
qed simp

declare split_ws.simps [simp del]

definition truncateToWords :: "jsstring \<Rightarrow> nat \<Rightarrow> jsstring" where
  "truncateToWords text maxWords =
     (let words = split_ws text
      in if length words \<le> maxWords then text
         else join (js '' '') (take maxWords words) @ js ''...'')"

text \<open>
  The callback of \<open>results.map\<close> in \<open>mapSummarize\<close>; \<open>findings.slice(0, 3).join('; ')\<close>
  converts the findings to strings and can throw.
\<close>

definition summarize_one :: "(rat \<Rightarrow> jsstring) \<Rightarrow> ExtractedResearch \<Rightarrow> js_error + jsstring" where
  "summarize_one numstr result =
     (case (case details result of
              JObj kvs \<Rightarrow>
                (case map_of kvs (js ''key_findings'') of
                   Some (JArr findings) \<Rightarrow>
                     (if length findings > 0
                      then (case join_json numstr (js ''; '') (take 3 findings) of
                              Inl e \<Rightarrow> Inl e
                            | Inr joined \<Rightarrow> Inr (summary result @ js '' Key findings: '' @ joined))
                      else Inr (summary result))
                 | _ \<Rightarrow> Inr (summary result))
            | _ \<Rightarrow> Inr (summary result)) of
        Inl e \<Rightarrow> Inl e
      | Inr s \<Rightarrow> Inr (truncateToWords s MAX_SUMMARY_WORDS))"

fun mapSummarize :: "(rat \<Rightarrow> jsstring) \<Rightarrow> ExtractedResearch list \<Rightarrow> js_error + jsstring list" where
  "mapSummarize numstr [] = Inr []"
| "mapSummarize numstr (result # results) =
     (case summarize_one numstr result of
        Inl e \<Rightarrow> Inl e
      | Inr s \<Rightarrow> (case mapSummarize numstr results of Inl e \<Rightarrow> Inl e | Inr ss \<Rightarrow> Inr (s # ss)))"

text \<open>
  \<open>aggregateSummaries\<close>: one call of \<open>geminiSimpleCompletion\<close> with the prompt built from
  the numbered summaries; when the call rejects, the first three summaries joined by a
  space. \<open>gemini\<close> is what that one call settles with, as a function of the prompt.
\<close>

fun numbered :: "nat \<Rightarrow> jsstring list \<Rightarrow> jsstring list" where
  "numbered i [] = []"
| "numbered i (s # ss) = (digits_of (i + 1) @ js ''. '' @ s) # numbered (i + 1) ss"

definition aggregation_prompt :: "jsstring list \<Rightarrow> jsstring \<Rightarrow> jsstring" where
  "aggregation_prompt summaries originalQuery =
     js ''You are aggregating research summaries. The original query was: '' @ [34]
       @ originalQuery @ [34, 10, 10]
       @ js ''Here are the individual research summaries:'' @ [10, 10]
       @ join [10, 10] (numbered 0 summaries) @ [10, 10]
       @ js ''Create a cohesive 3-5 sentence summary that:'' @ [10]
       @ js ''1. Captures the key themes and patterns across all results'' @ [10]
       @ js ''2. Highlights the most important findings'' @ [10]
       @ js ''3. Notes any significant differences or outliers'' @ [10]
       @ js ''4. Provides actionable insights'' @ [10, 10]
       @ js ''Keep your response concise and directly useful. Do not use bullet points, write in flowing prose.''"

definition aggregateSummaries ::
  "(jsstring \<Rightarrow> js_error + jsstring) \<Rightarrow> jsstring list \<Rightarrow> jsstring \<Rightarrow> jsstring"
where
  "aggregateSummaries gemini summaries originalQuery =
     (case gemini (aggregation_prompt summaries originalQuery) of
        Inr answer \<Rightarrow> answer
      | Inl e \<Rightarrow> join (js '' '') (take 3 summaries))"

text \<open>The loop of \<open>reduceAggregate\<close> that cuts the summaries into chunks, from index \<open>i\<close>.\<close>

function chunks_from :: "'a list \<Rightarrow> nat \<Rightarrow> 'a list list" where
  "chunks_from summaries i =
     (if i < length summaries
      then take AGGREGATION_CHUNK_SIZE (drop i summaries)
             # chunks_from summaries (i + AGGREGATION_CHUNK_SIZE)
      else [])"
  by pat_completeness auto
termination
  by (relation "measure (\<lambda>(summaries, i). length summaries - i)")
     (auto simp: AGGREGATION_CHUNK_SIZE_def)

declare chunks_from.simps [simp del]

text \<open>
  An aggregation call, as \<open>reduceAggregate\<close> issues it: its level (1 on summaries of the
  map phase, 2 on the summaries of chunks) and the summaries it is given.
\<close>

datatype agg_call = AggCall (level: nat) (inputs: "jsstring list")

fun first_level ::
  "(nat \<Rightarrow> jsstring \<Rightarrow> js_error + jsstring) \<Rightarrow> nat \<Rightarrow> jsstring list list \<Rightarrow> jsstring \<Rightarrow>
   jsstring list"
where
  "first_level gemini n [] originalQuery = []"
| "first_level gemini n (chunk # chunks) originalQuery =
     aggregateSummaries (gemini n) chunk originalQuery
       # first_level gemini (n + 1) chunks originalQuery"

text \<open>
  \<open>reduceAggregate\<close>, with the aggregation calls it issues, in the order it issues them
  (\<open>chunks.map\<close> starts the calls of the chunks in order; \<open>Promise.all\<close> awaits them all).
  \<open>gemini n\<close> is what the \<open>n\<close>-th call issued settles with.
\<close>

definition reduceAggregate ::
  "(nat \<Rightarrow> jsstring \<Rightarrow> js_error + jsstring) \<Rightarrow> jsstring list \<Rightarrow> jsstring \<Rightarrow>
   jsstring \<times> agg_call list"
where
  "reduceAggregate gemini summaries originalQuery =
     (if length summaries \<le> AGGREGATION_CHUNK_SIZE
      then (aggregateSummaries (gemini 0) summaries originalQuery, [AggCall 1 summaries])
      else
        (let chunks = chunks_from summaries 0;
             firstLevelSummaries = first_level gemini 0 chunks originalQuery
         in (aggregateSummaries (gemini (length chunks)) firstLevelSummaries originalQuery,
             map (AggCall 1) chunks @ [AggCall 2 firstLevelSummaries])))"

section \<open>llmOrchestrator.ts\<close>

definition TIMEOUT_MS :: nat where "TIMEOUT_MS = 5000"
definition MAX_REPAIR_ATTEMPTS :: nat where "MAX_REPAIR_ATTEMPTS = 2"

datatype LLMRole = System | User | Assistant

record LLMMessage =
  msg_role :: LLMRole
  msg_content :: jsstring

record LLMResponse =
  resp_content :: jsstring
  resp_model :: jsstring

datatype LLMProvider = Openrouter | Gemini

text \<open>
  A promise over time: it settles after some milliseconds, fulfilled (\<open>Inr\<close>) or
  rejected (\<open>Inl\<close>), or it never settles. \<open>withTimeout\<close> races it against a timer that
  rejects with \<open>errorMessage\<close> after \<open>ms\<close> milliseconds.
\<close>

datatype 'a timed = Settles nat "js_error + 'a" | Never

definition withTimeout :: "'a timed \<Rightarrow> nat \<Rightarrow> jsstring \<Rightarrow> js_error + 'a" where
  "withTimeout promise ms errorMessage =
     (case promise of
        Settles t r \<Rightarrow> if t < ms then r else Inl (Error errorMessage)
      | Never \<Rightarrow> Inl (Error errorMessage))"

text \<open>
  The two backends, as one research call sees them: what the call of
  \<open>openrouterCompletion\<close> and of \<open>geminiCompletion\<close> on the messages settles with, and
  what the call of \<open>geminiSimpleCompletion\<close> made on attempt \<open>n\<close> with a prompt settles
  with. The requests themselves (HTTP, the SDK of the backend) are outside the model.
\<close>

record providers =
  openrouterCompletion :: "LLMMessage list \<Rightarrow> LLMResponse timed"
  geminiCompletion :: "LLMMessage list \<Rightarrow> js_error + LLMResponse"
  geminiSimpleCompletion :: "nat \<Rightarrow> jsstring \<Rightarrow> js_error + jsstring"

record OrchestrationResult =
  orc_response :: LLMResponse
  orc_provider :: LLMProvider
  orc_fallbackUsed :: bool

text \<open>
  \<open>llmCompletion\<close>. Both \<open>catch\<close> blocks read \<open>(error as Error).message\<close>, which
  throws when what was caught is \<open>undefined\<close> or \<open>null\<close>.
\<close>

definition llmCompletion :: "providers \<Rightarrow> LLMMessage list \<Rightarrow> js_error + OrchestrationResult" where
  "llmCompletion P messages =
     (case withTimeout (openrouterCompletion P messages) TIMEOUT_MS (js ''OpenRouter timeout'') of
        Inr response \<Rightarrow>
          Inr \<lparr>orc_response = response, orc_provider = Openrouter, orc_fallbackUsed = False\<rparr>
      | Inl err \<Rightarrow>
          (case read_message err of
             Inl t \<Rightarrow> Inl t
           | Inr msg \<Rightarrow>
               (case geminiCompletion P messages of
                  Inr response \<Rightarrow>
                    Inr \<lparr>orc_response = response, orc_provider = Gemini, orc_fallbackUsed = True\<rparr>
                | Inl geminiError \<Rightarrow>
                    (case read_message geminiError of
                       Inl t \<Rightarrow> Inl t
                     | Inr geminiMsg \<Rightarrow>
                         Inl (Error (js ''All LLM providers failed. OpenRouter: ''
                                       @ template_text msg @ js '', Gemini: ''
                                       @ template_text geminiMsg))))))"

text \<open>\<open>createResearchPrompt\<close> of openrouter.ts; the entity is the list of its entries.\<close>

definition createResearchPrompt :: "jsstring \<Rightarrow> (jsstring \<times> jsstring) list \<Rightarrow> LLMMessage list" where
  "createResearchPrompt query entityData =
     [\<lparr>msg_role = User,
       msg_content =
         js ''Research the following entity based on this query: \"'' @ query @ js ''\"'' @ [10, 10]
         @ js ''Entity Information:'' @ [10]
         @ join [10] (map (\<lambda>(key, val). key @ js '': '' @ val) entityData) @ [10, 10]
         @ js ''Respond with a JSON object in this exact format:'' @ [10]
         @ js ''{'' @ [10]
         @ js ''  \"summary\": \"A concise 2-3 sentence summary of the research findings\",'' @ [10]
         @ js ''  \"details\": {'' @ [10]
         @ js ''    \"key_findings\": [\"finding 1\", \"finding 2\"],'' @ [10]
         @ js ''    \"relevant_data\": {}'' @ [10]
         @ js ''  },'' @ [10]
         @ js ''  \"sources\": [\"source1.com\", \"source2.com\"],'' @ [10]
         @ js ''  \"confidence\": 0.85'' @ [10]
         @ js ''}'' @ [10, 10]
         @ js ''The confidence score should be between 0 and 1 based on how reliable the information is.'' @ [10]
         @ js ''Remember: Output ONLY the JSON object, nothing else.''\<rparr>]"

text \<open>What \<open>researchCompletion\<close> resolves with: \<open>{result, provider, attempts}\<close>.\<close>

record research_outcome =
  res_result :: ExtractedResearch
  res_provider :: LLMProvider
  res_attempts :: nat

definition fallback_result :: ExtractedResearch where
  "fallback_result =
     \<lparr>summary = js ''Research could not be completed due to processing errors.'',
      details = JObj [], sources = None, confidence = 1 / 10\<rparr>"

text \<open>
  The \<open>try\<close> block of one turn of the loop of \<open>researchCompletion\<close>, up to the
  extraction: the response and the provider it assigns, or the exception it throws
  before assigning anything. \<open>attempts\<close> is the counter after \<open>attempts++\<close>.
\<close>

definition request_response ::
  "providers \<Rightarrow> jsstring \<Rightarrow> LLMMessage list \<Rightarrow> nat \<Rightarrow> jsstring \<Rightarrow> js_error + jsstring \<times> LLMProvider"
where
  "request_response P query messages attempts lastResponse =
     (if attempts = 1 then
        (case llmCompletion P messages of
           Inl e \<Rightarrow> Inl e
         | Inr r \<Rightarrow> Inr (resp_content (orc_response r), orc_provider r))
      else
        (case geminiSimpleCompletion P (attempts - 1) (createRepairPrompt query lastResponse) of
           Inl e \<Rightarrow> Inl e
         | Inr answer \<Rightarrow> Inr (answer, Gemini)))"

text \<open>
  The \<open>while\<close> loop of \<open>researchCompletion\<close> and the return after it. The \<open>catch\<close>
  block logs \<open>(error as Error).message\<close> and lets the loop go on; reading the message of
  \<open>undefined\<close> or \<open>null\<close> throws, out of the function. The promise of the \<open>async\<close>
  function is fulfilled (\<open>Inr\<close>) or rejected (\<open>Inl\<close>).
\<close>

function research_loop ::
  "(rat \<Rightarrow> jsstring) \<Rightarrow> providers \<Rightarrow> jsstring \<Rightarrow> LLMMessage list \<Rightarrow> nat \<Rightarrow> jsstring \<Rightarrow>
   LLMProvider \<Rightarrow> js_error + research_outcome"
where
  "research_loop numstr P query messages attempts lastResponse lastProvider =
     (if attempts < MAX_REPAIR_ATTEMPTS + 1 then
        (case request_response P query messages (attempts + 1) lastResponse of
           Inl e \<Rightarrow>
             (case read_message e of
                Inl t \<Rightarrow> Inl t
              | Inr msg \<Rightarrow>
                  research_loop numstr P query messages (attempts + 1) lastResponse lastProvider)
         | Inr (response, provider) \<Rightarrow>
             (case extractResearchResult numstr response of
                Inl e \<Rightarrow>
                  (case read_message e of
                     Inl t \<Rightarrow> Inl t
                   | Inr msg \<Rightarrow>
                       research_loop numstr P query messages (attempts + 1) response provider)
              | Inr None \<Rightarrow> research_loop numstr P query messages (attempts + 1) response provider
              | Inr (Some extracted) \<Rightarrow>
                  Inr \<lparr>res_result = extracted, res_provider = provider,
                       res_attempts = attempts + 1\<rparr>))
      else
        Inr \<lparr>res_result = fallback_result, res_provider = lastProvider, res_attempts = attempts\<rparr>)"
  by pat_completeness auto
termination
  by (relation "measure (\<lambda>(n, P, q, m, attempts, r, p). MAX_REPAIR_ATTEMPTS + 1 - attempts)") auto

declare research_loop.simps [simp del]

definition researchCompletion ::
  "(rat \<Rightarrow> jsstring) \<Rightarrow> providers \<Rightarrow> jsstring \<Rightarrow> (jsstring \<times> jsstring) list \<Rightarrow>
   js_error + research_outcome"
where
  "researchCompletion numstr P query entityData =
     research_loop numstr P query (createResearchPrompt query entityData) 0 [] Openrouter"

section \<open>researchWorker.ts\<close>

datatype RowStatus = StatusPending | StatusProcessing | StatusCompleted | StatusError

record ResearchResult = ExtractedResearch +
  timestamp :: nat

record SpreadsheetRow =
  row_id :: jsstring
  row_data :: "(jsstring \<times> jsstring) list"
  row_status :: RowStatus
  row_research :: "ResearchResult option"

record WorkerProgress =
  wp_rowId :: jsstring
  wp_status :: RowStatus
  wp_result :: "ResearchResult option"
  wp_error :: "jsstring option"

text \<open>\<open>toResearchResult\<close>; \<open>now\<close> is the reading of \<open>Date.now()\<close>.\<close>

definition toResearchResult :: "nat \<Rightarrow> ExtractedResearch \<Rightarrow> ResearchResult" where
  "toResearchResult now extracted =
     \<lparr>summary = summary extracted, details = details extracted, sources = sources extracted,
      confidence = confidence extracted, timestamp = now\<rparr>"

text \<open>
  What the worker does to the world: it calls the callback \<open>options.onProgress\<close> of its
  owner (an observer that returns normally), and it sets an entry of \<open>results\<close>.
\<close>

datatype worker_effect = Notify WorkerProgress | SetResult jsstring ResearchResult

text \<open>What the processor of \<open>processRows\<close> resolves with: \<open>{row, research, provider}\<close>.\<close>

record row_research =
  rr_row :: SpreadsheetRow
  rr_research :: ExtractedResearch
  rr_provider :: LLMProvider

text \<open>
  The processor of \<open>processRows\<close>. \<open>env index attempt\<close> are the backends as the research
  call made for the row at \<open>index\<close> on attempt \<open>attempt\<close> of the rate limiter sees them.
\<close>

definition row_processor ::
  "(rat \<Rightarrow> jsstring) \<Rightarrow> (nat \<Rightarrow> nat \<Rightarrow> providers) \<Rightarrow> jsstring \<Rightarrow>
   (SpreadsheetRow, row_research, worker_effect) processor"
where
  "row_processor numstr env query row index attempt =
     (case researchCompletion numstr (env index attempt) query (row_data row) of
        Inl e \<Rightarrow> Inl e
      | Inr done \<Rightarrow>
          Inr \<lparr>rr_row = row, rr_research = res_result done, rr_provider = res_provider done\<rparr>,
      [Notify \<lparr>wp_rowId = row_id row, wp_status = StatusProcessing,
               wp_result = None, wp_error = None\<rparr>])"

text \<open>
  The progress callback of \<open>processRows\<close>; \<open>clock item\<close> is the reading of
  \<open>Date.now()\<close> when it runs for \<open>item\<close>.
\<close>

definition row_progress ::
  "(SpreadsheetRow \<Rightarrow> nat) \<Rightarrow> (SpreadsheetRow, row_research, worker_effect) progress"
where
  "row_progress clock tot item result err =
     (None,
      (case (err, result) of
         (None, Some done) \<Rightarrow>
           [SetResult (row_id item) (toResearchResult (clock item) (rr_research done)),
            Notify \<lparr>wp_rowId = row_id item, wp_status = StatusCompleted,
                    wp_result = Some (toResearchResult (clock item) (rr_research done)),
                    wp_error = None\<rparr>]
       | _ \<Rightarrow>
           [Notify \<lparr>wp_rowId = row_id item, wp_status = StatusError, wp_result = None,
                    wp_error = Some (case err of
                                       Some (Error m) \<Rightarrow>
                                         if m = [] then js ''Unknown error'' else m
                                     | _ \<Rightarrow> js ''Unknown error'')\<rparr>]))"

fun emitted :: "worker_effect step list \<Rightarrow> worker_effect list" where
  "emitted [] = []"
| "emitted (Emitted e # ss) = e # emitted ss"
| "emitted (_ # ss) = emitted ss"

fun notifications :: "worker_effect list \<Rightarrow> WorkerProgress list" where
  "notifications [] = []"
| "notifications (Notify p # es) = p # notifications es"
| "notifications (_ # es) = notifications es"

fun apply_sets ::
  "worker_effect list \<Rightarrow> (jsstring \<rightharpoonup> ResearchResult) \<Rightarrow> (jsstring \<rightharpoonup> ResearchResult)"
where
  "apply_sets [] results = results"
| "apply_sets (SetResult k v # es) results = apply_sets es (results(k \<mapsto> v))"
| "apply_sets (_ # es) results = apply_sets es results"

text \<open>
  The loop that collects the successful results after \<open>processWithRetry\<close>;
  \<open>clock k\<close> is the reading of \<open>Date.now()\<close> in its \<open>k\<close>-th turn.
\<close>

fun collect ::
  "(nat \<Rightarrow> nat) \<Rightarrow> nat \<Rightarrow> (SpreadsheetRow, row_research) outcome list \<Rightarrow>
   (jsstring \<rightharpoonup> ResearchResult) \<Rightarrow> (jsstring \<rightharpoonup> ResearchResult)"
where
  "collect clock k [] results = results"
| "collect clock k (out # outs) results =
     collect clock (k + 1) outs
       (case out_result out of
          None \<Rightarrow> results
        | Some done \<Rightarrow>
            results(row_id (out_item out) \<mapsto> toResearchResult (clock k) (rr_research done)))"

text \<open>
  \<open>processRows\<close>: the mapping it resolves with (or the rejection), and the progress
  events its owner has received. The limiter is \<open>createRateLimiter({concurrency: 5})\<close>.
  The effects of the tasks are put one task after the other, in the order of the rows;
  with several rows in flight the tasks interleave, each keeping its own order.
\<close>

definition worker_limiter :: "js_error + limiter" where
  "worker_limiter =
     createRateLimiter \<lparr>concurrency = Some 5, maxRetries = None, initialBackoffMs = None\<rparr>"

definition processRows ::
  "(rat \<Rightarrow> jsstring) \<Rightarrow> (nat \<Rightarrow> nat \<Rightarrow> providers) \<Rightarrow> (SpreadsheetRow \<Rightarrow> nat) \<Rightarrow> (nat \<Rightarrow> nat) \<Rightarrow>
   jsstring \<Rightarrow> SpreadsheetRow list \<Rightarrow>
   (js_error + (jsstring \<rightharpoonup> ResearchResult)) \<times> WorkerProgress list"
where
  "processRows numstr env clock final_clock query rows =
     (case worker_limiter of
        Inl e \<Rightarrow> (Inl e, [])
      | Inr L \<Rightarrow>
          (let effects = concat (map (emitted \<circ> snd)
                           (run_items L (row_processor numstr env query) (row_progress clock) rows))
           in (case processWithRetry L (row_processor numstr env query) (row_progress clock) rows of
                 Inl e \<Rightarrow> Inl e
               | Inr processedResults \<Rightarrow>
                   Inr (collect final_clock 0 processedResults (apply_sets effects Map.empty)),
               notifications effects)))"

text \<open>
  Every call of a backend throws; what the clients of the backends throw are \<open>Error\<close>
  objects.
\<close>

definition all_throw :: "providers \<Rightarrow> bool" where
  "all_throw P \<longleftrightarrow>
     (\<forall>messages. \<exists>t m. openrouterCompletion P messages = Settles t (Inl (Error m))) \<and>
     (\<forall>messages. \<exists>m. geminiCompletion P messages = Inl (Error m)) \<and>
     (\<forall>n prompt. \<exists>m. geminiSimpleCompletion P n prompt = Inl (Error m))"

text \<open>Backends that are down: every call throws at once.\<close>

definition outage :: providers where
  "outage =
     \<lparr>openrouterCompletion = (\<lambda>messages. Settles 0 (Inl (Error (js ''ECONNREFUSED'')))),
      geminiCompletion = (\<lambda>messages. Inl (Error (js ''503 Service Unavailable''))),
      geminiSimpleCompletion = (\<lambda>n prompt. Inl (Error (js ''503 Service Unavailable'')))\<rparr>"

definition the_row :: SpreadsheetRow where
  "the_row = \<lparr>row_id = js ''row-1'', row_data = [(js ''Company'', js ''Acme'')],
              row_status = StatusPending, row_research = None\<rparr>"

section \<open>Properties of the rate limiter\<close>

lemma attempts_of_append: "attempts_of (xs @ ys) = attempts_of xs @ attempts_of ys"
  by (induction xs rule: attempts_of.induct) auto

lemma delays_of_append: "delays_of (xs @ ys) = delays_of xs @ delays_of ys"
  by (induction xs rule: delays_of.induct) auto

lemma attempts_of_Emitted: "attempts_of (map Emitted es) = []"
  by (induction es) auto

lemma delays_of_Emitted: "delays_of (map Emitted es) = []"
  by (induction es) auto

lemma attempts_of_backoff: "attempts_of (backoff L e a) = []"
  by (simp add: backoff_def)


lemma retry_loop_done:
  "\<not> attempt < lim_maxRetries L \<Longrightarrow>
   retry_loop L processor onProgress tot item index attempt lastError =
     (case onProgress tot item None lastError of
        (None, cs) \<Rightarrow>
          (Inr \<lparr>out_item = item, out_result = None, out_error = lastError\<rparr>, map Emitted cs)
      | (Some e, cs) \<Rightarrow> (Inl e, map Emitted cs))"
  by (subst retry_loop.simps) simp

lemma retry_loop_ok:
  "attempt < lim_maxRetries L \<Longrightarrow>
   try_attempt processor onProgress tot item index attempt = (Inr result, es) \<Longrightarrow>
   retry_loop L processor onProgress tot item index attempt lastError =
     (Inr \<lparr>out_item = item, out_result = Some result, out_error = None\<rparr>,
      Attempt attempt # map Emitted es)"
  by (subst retry_loop.simps) simp

lemma retry_loop_fail:
  "attempt < lim_maxRetries L \<Longrightarrow>
   try_attempt processor onProgress tot item index attempt = (Inl e, es) \<Longrightarrow>
   catch_check e = Inr limited \<Longrightarrow>
   retry_loop L processor onProgress tot item index attempt lastError =
     (fst (retry_loop L processor onProgress tot item index (Suc attempt) (Some e)),
      Attempt attempt # map Emitted es @ backoff L limited attempt
        @ snd (retry_loop L processor onProgress tot item index (Suc attempt) (Some e)))"
  by (subst retry_loop.simps) (simp add: Let_def)

lemma retry_loop_throw:
  "attempt < lim_maxRetries L \<Longrightarrow>
   try_attempt processor onProgress tot item index attempt = (Inl e, es) \<Longrightarrow>
   catch_check e = Inl t \<Longrightarrow>
   retry_loop L processor onProgress tot item index attempt lastError =
     (Inl t, Attempt attempt # map Emitted es)"
  by (subst retry_loop.simps) simp

lemma retry_loop_calls:
  "length (attempts_of (snd (retry_loop L processor onProgress tot item index attempt lastError)))
     \<le> lim_maxRetries L - attempt"
proof (induction L processor onProgress tot item index attempt lastError rule: retry_loop.induct)
  case (1 L processor onProgress tot item index attempt lastError)
  show ?case
  proof (cases "attempt < lim_maxRetries L")
    case False
    then show ?thesis
      by (simp add: retry_loop_done attempts_of_Emitted split: prod.splits option.splits)
  next
    case True
    obtain r es where t: "try_attempt processor onProgress tot item index attempt = (r, es)"
      by (cases "try_attempt processor onProgress tot item index attempt")
    show ?thesis
    proof (cases r)
      case (Inr v)
      with True t show ?thesis
        by (simp add: retry_loop_ok attempts_of_Emitted)
    next
      case (Inl e)
      show ?thesis
      proof (cases "catch_check e")
        case thrown: (Inl x)
        with True t Inl show ?thesis
          by (simp add: retry_loop_throw attempts_of_Emitted)
      next
        case (Inr limited)
        have "length (attempts_of (snd (retry_loop L processor onProgress tot item index
                (Suc attempt) (Some e)))) \<le> lim_maxRetries L - Suc attempt"
          using "1.IH" True t Inl Inr by auto
        with True t Inl Inr show ?thesis
          by (simp add: retry_loop_fail attempts_of_Emitted attempts_of_append attempts_of_backoff)
      qed
    qed
  qed
qed

lemma retry_loop_item:
  "fst (retry_loop L processor onProgress tot item index attempt lastError) = Inr out
    \<Longrightarrow> out_item out = item"
proof (induction L processor onProgress tot item index attempt lastError rule: retry_loop.induct)
  case (1 L processor onProgress tot item index attempt lastError)
  show ?case
  proof (cases "attempt < lim_maxRetries L")
    case False
    with "1.prems" show ?thesis
      by (auto simp: retry_loop_done split: prod.splits option.splits)
  next
    case True
    obtain r es where t: "try_attempt processor onProgress tot item index attempt = (r, es)"
      by (cases "try_attempt processor onProgress tot item index attempt")
    show ?thesis
    proof (cases r)
      case (Inr v)
      with True t "1.prems" show ?thesis
        by (auto simp: retry_loop_ok)
    next
      case (Inl e)
      show ?thesis
      proof (cases "catch_check e")
        case thrown: (Inl x)
        with True t Inl "1.prems" show ?thesis
          by (simp add: retry_loop_throw)
      next
        case (Inr limited)
        have "fst (retry_loop L processor onProgress tot item index (Suc attempt) (Some e))
                = Inr out"
          using True t Inl Inr "1.prems" by (simp add: retry_loop_fail)
        then show ?thesis
          using "1.IH" True t Inl Inr by auto
      qed
    qed
  qed
qed

lemma try_attempt_error:
  assumes "returns_normally onProgress" and "rejects_with_errors processor"
      and "try_attempt processor onProgress tot item index attempt = (Inl e, es)"
  shows "\<exists>m. e = Error m"
proof (cases "processor item index attempt")
  case (Pair r ps)
  show ?thesis
  proof (cases r)
    case (Inl x)
    then have "e = x" using assms(3) Pair by (simp add: try_attempt_def)
    moreover have "fst (processor item index attempt) = Inl x" using Pair Inl by simp
    ultimately show ?thesis using assms(2) unfolding rejects_with_errors_def by blast
  next
    case (Inr v)
    obtain cs where "onProgress tot item (Some v) None = (None, cs)"
      using assms(1) unfolding returns_normally_def by (metis prod.collapse)
    then show ?thesis using assms(3) Pair Inr by (simp add: try_attempt_def)
  qed
qed

lemma retry_loop_resolves:
  "returns_normally onProgress \<Longrightarrow> rejects_with_errors processor \<Longrightarrow>
   \<exists>out. fst (retry_loop L processor onProgress tot item index attempt lastError) = Inr out"
proof (induction L processor onProgress tot item index attempt lastError rule: retry_loop.induct)
  case (1 L processor onProgress tot item index attempt lastError)
  show ?case
  proof (cases "attempt < lim_maxRetries L")
    case False
    obtain cs where "onProgress tot item None lastError = (None, cs)"
      using "1.prems"(1) unfolding returns_normally_def
      by (metis prod.collapse)
    with False show ?thesis
      by (simp add: retry_loop_done)
  next
    case True
    obtain r es where t: "try_attempt processor onProgress tot item index attempt = (r, es)"
      by (cases "try_attempt processor onProgress tot item index attempt")
    show ?thesis
    proof (cases r)
      case (Inr v)
      with True t show ?thesis
        by (simp add: retry_loop_ok)
    next
      case (Inl e)
      then obtain m where m: "e = Error m"
        using try_attempt_error[OF "1.prems"] t by blast
      then have c: "catch_check e = Inr (isRateLimit m)"
        by (simp add: catch_check_def)
      have "\<exists>out. fst (retry_loop L processor onProgress tot item index (Suc attempt) (Some e))
                = Inr out"
        using "1.IH" True t Inl c "1.prems" by auto
      then show ?thesis
        using True t Inl c by (simp add: retry_loop_fail)
    qed
  qed
qed

lemma Promise_all_resolved:
  "\<forall>p \<in> set ps. \<exists>v. p = Inr v \<Longrightarrow> Promise_all ps = Inr (map projr ps)"
  by (induction ps rule: Promise_all.induct) auto

lemma run_items_length: "length (run_items L processor onProgress items) = length items"
  by (simp add: run_items_def)

lemma run_items_nth:
  "i < length items \<Longrightarrow>
   run_items L processor onProgress items ! i
     = retry_loop L processor onProgress (length items) (items ! i) i 0 None"
  by (simp add: run_items_def)

lemma Promise_all_values: "Promise_all ps = Inr outs \<Longrightarrow> ps = map Inr outs"
  by (induction ps arbitrary: outs rule: Promise_all.induct) (auto split: sum.splits)

lemma run_items_resolved:
  assumes "returns_normally onProgress" and "rejects_with_errors processor"
  shows "\<forall>p \<in> set (map fst (run_items L processor onProgress items)). \<exists>v. p = Inr v"
  using retry_loop_resolves[OF assms] by (auto simp: run_items_def)

lemma processWithRetry_value:
  assumes "returns_normally onProgress" and "rejects_with_errors processor"
  shows "processWithRetry L processor onProgress items
           = Inr (map (projr \<circ> fst) (run_items L processor onProgress items))"
  unfolding processWithRetry_def
  using Promise_all_resolved[OF run_items_resolved[OF assms]] by simp

lemma processWithRetry_nth:
  assumes "processWithRetry L processor onProgress items = Inr outs" and "i < length items"
  shows "i < length outs \<and> out_item (outs ! i) = items ! i"
proof -
  have m: "map fst (run_items L processor onProgress items) = map Inr outs"
    using assms(1) unfolding processWithRetry_def by (rule Promise_all_values)
  then have "length (map fst (run_items L processor onProgress items)) = length (map Inr outs)"
    by simp
  then have len: "length outs = length items"
    by (simp add: run_items_length)
  have "map fst (run_items L processor onProgress items) ! i = map Inr outs ! i"
    using m by simp
  then have "fst (run_items L processor onProgress items ! i) = Inr (outs ! i)"
    using assms(2) len by (simp add: run_items_length)
  then have "fst (retry_loop L processor onProgress (length items) (items ! i) i 0 None)
               = Inr (outs ! i)"
    using assms(2) by (simp add: run_items_nth)
  then have "out_item (outs ! i) = items ! i"
    by (rule retry_loop_item)
  then show ?thesis using len assms(2) by simp
qed

lemma run_items_calls:
  "\<forall>t \<in> set (run_items L processor onProgress items).
     length (attempts_of (snd t)) \<le> lim_maxRetries L \<and> retries_of (snd t) \<le> lim_maxRetries L"
proof
  fix t assume "t \<in> set (run_items L processor onProgress items)"
  then obtain item index where
    t: "t = retry_loop L processor onProgress (length items) item index 0 None"
    by (auto simp: run_items_def)
  have "length (attempts_of (snd t)) \<le> lim_maxRetries L"
    using retry_loop_calls[of L processor onProgress "length items" item index 0 None] t by simp
  then show "length (attempts_of (snd t)) \<le> lim_maxRetries L \<and> retries_of (snd t) \<le> lim_maxRetries L"
    by (simp add: retries_of_def)
qed

text \<open>
  C5, as amended. For every list of items and every processor whose rejections are
  \<open>Error\<close> objects, also one that rejects on every call for some items, and with the
  progress callback absent or returning normally, \<open>processWithRetry\<close> resolves: no
  failure of an item makes it reject. The array it resolves with has the length of
  \<open>items\<close> and holds the items in their order, each once. Whatever the processor and
  the callback, no task calls the processor more than \<open>maxRetries\<close> times, so the
  retries of an item never exceed \<open>maxRetries\<close>, which is 3 by default.
\<close>

theorem processWithRetry_outcomes:
  "(returns_normally onProgress \<and> rejects_with_errors processor \<longrightarrow>
      (\<exists>outs. processWithRetry L processor onProgress items = Inr outs
           \<and> length outs = length items \<and> map out_item outs = items))
   \<and> (\<forall>t \<in> set (run_items L processor onProgress items).
           length (attempts_of (snd t)) \<le> lim_maxRetries L
           \<and> retries_of (snd t) \<le> lim_maxRetries L)
   \<and> lim_maxRetries default_limiter = 3
   \<and> createRateLimiter default_options = Inr default_limiter"
proof -
  have "\<exists>outs. processWithRetry L processor onProgress items = Inr outs
           \<and> length outs = length items \<and> map out_item outs = items"
    if h: "returns_normally onProgress" "rejects_with_errors processor"
  proof -
    let ?outs = "map (projr \<circ> fst) (run_items L processor onProgress items)"
    have v: "processWithRetry L processor onProgress items = Inr ?outs"
      by (rule processWithRetry_value[OF h])
    have len: "length ?outs = length items" by (simp add: run_items_length)
    have "map out_item ?outs = items"
    proof (rule nth_equalityI)
      show "length (map out_item ?outs) = length items" using len by simp
    next
      fix i assume "i < length (map out_item ?outs)"
      then have i: "i < length items" using len by simp
      then show "map out_item ?outs ! i = items ! i"
        using processWithRetry_nth[OF v i] by (simp add: run_items_length)
    qed
    then show ?thesis using v len by blast
  qed
  moreover have "createRateLimiter default_options = Inr default_limiter"
    by (simp add: createRateLimiter_def default_options_def default_limiter_def
        DEFAULT_CONCURRENCY_def MAX_RETRIES_def INITIAL_BACKOFF_MS_def)
  ultimately show ?thesis
    using run_items_calls[of L processor onProgress items] by (simp add: default_limiter_def)
qed

theorem processWithRetry_outcomes_witness:
  "returns_normally (no_callback :: (nat, nat, unit) progress)
   \<and> rejects_with_errors
       (\<lambda>item index attempt.
          (if item = (7 :: nat) then Inl (Error (js ''boom'')) else Inr (item + 1 :: nat),
           [] :: unit list))
   \<and> processWithRetry default_limiter
       (\<lambda>item index attempt. (if item = 7 then Inl (Error (js ''boom'')) else Inr (item + 1), []))
       (no_callback :: (nat, nat, unit) progress) [7, 8]
     = Inr [\<lparr>out_item = 7, out_result = None, out_error = Some (Error (js ''boom''))\<rparr>,
            \<lparr>out_item = 8, out_result = Some 9, out_error = None\<rparr>]"
proof -
  have n: "returns_normally (no_callback :: (nat, nat, unit) progress)"
    by (simp add: returns_normally_def no_callback_def)
  have e: "rejects_with_errors
       (\<lambda>item index attempt.
          (if item = (7 :: nat) then Inl (Error (js ''boom'')) else Inr (item + 1 :: nat),
           [] :: unit list))"
    by (simp add: rejects_with_errors_def)
  have v: "processWithRetry default_limiter
       (\<lambda>item index attempt. (if item = 7 then Inl (Error (js ''boom'')) else Inr (item + 1), []))
       (no_callback :: (nat, nat, unit) progress) [7, 8]
     = Inr [\<lparr>out_item = 7, out_result = None, out_error = Some (Error (js ''boom''))\<rparr>,
            \<lparr>out_item = 8, out_result = Some 9, out_error = None\<rparr>]"
    by (simp add: processWithRetry_def run_items_def retry_loop.simps try_attempt_def
        catch_check_def default_limiter_def no_callback_def upt_rec)
  show ?thesis
    using processWithRetry_outcomes[of "no_callback :: (nat, nat, unit) progress"
       "\<lambda>item index attempt. (if item = 7 then Inl (Error (js ''boom'')) else Inr (item + 1), [])"
       default_limiter "[7, 8]"] n e v
    by simp
qed

text \<open>
  C5 as stated fails for a processor that throws a value that is no \<open>Error\<close>, such as
  \<open>throw 'boom'\<close>: the \<open>catch\<close> block reads \<open>lastError.message.includes\<close>, which throws a
  TypeError out of the task after its first call of the processor, and the batch
  rejects.
\<close>

theorem processWithRetry_rejects_counterexample:
  "processWithRetry default_limiter
       (\<lambda>item index attempt. (Inl Primitive :: js_error + nat, [] :: unit list))
       no_callback [7 :: nat]
     = Inl (Error (js ''Cannot read properties of undefined (reading includes)''))
   \<and> map (attempts_of \<circ> snd) (run_items default_limiter
       (\<lambda>item index attempt. (Inl Primitive :: js_error + nat, [] :: unit list))
       no_callback [7 :: nat]) = [[0]]"
  by (simp add: processWithRetry_def run_items_def retry_loop.simps try_attempt_def
      catch_check_def default_limiter_def no_callback_def)

text \<open>
  C10. When \<open>processWithRetry\<close> resolves, the array it resolves with keeps the order of
  submission: its \<open>i\<close>-th element has \<open>item\<close> equal to \<open>items[i]\<close>, for every processor
  and every progress callback. The order in which the tasks complete plays no part,
  the processor's outcomes being arbitrary.
\<close>

theorem processWithRetry_positional:
  assumes "processWithRetry L processor onProgress items = Inr outs" and "i < length items"
  shows "i < length outs \<and> out_item (outs ! i) = items ! i"
  using assms by (rule processWithRetry_nth)

theorem processWithRetry_positional_witness:
  "processWithRetry default_limiter
       (\<lambda>item index attempt. (if item = 7 then Inl (Error (js ''boom'')) else Inr (item + 1), []))
       (no_callback :: (nat, nat, unit) progress) [7, 8]
     = Inr [\<lparr>out_item = 7, out_result = None, out_error = Some (Error (js ''boom''))\<rparr>,
            \<lparr>out_item = 8, out_result = Some 9, out_error = None\<rparr>]
   \<and> out_item ([\<lparr>out_item = 7, out_result = None, out_error = Some (Error (js ''boom''))\<rparr>,
            \<lparr>out_item = 8 :: nat, out_result = Some (9 :: nat), out_error = None\<rparr>] ! 1) = 8"
proof -
  have v: "processWithRetry default_limiter
       (\<lambda>item index attempt. (if item = 7 then Inl (Error (js ''boom'')) else Inr (item + 1), []))
       (no_callback :: (nat, nat, unit) progress) [7, 8]
     = Inr [\<lparr>out_item = 7, out_result = None, out_error = Some (Error (js ''boom''))\<rparr>,
            \<lparr>out_item = 8, out_result = Some 9, out_error = None\<rparr>]"
    by (simp add: processWithRetry_def run_items_def retry_loop.simps try_attempt_def
        catch_check_def default_limiter_def no_callback_def upt_rec)
  show ?thesis
    using processWithRetry_positional[OF v, of 1] v by simp
qed

lemma retry_loop_delays:
  assumes "\<forall>j. a \<le> j \<and> j < a + m \<longrightarrow> fst (processor item index j) = Inl (Error (msgs j))"
      and "a + m < lim_maxRetries L"
  shows "take m (delays_of (snd (retry_loop L processor onProgress tot item index a le)))
           = map (delay_rule L msgs) [a ..< a + m]"
  using assms
proof (induction m arbitrary: a le)
  case 0
  then show ?case by simp
next
  case (Suc m)
  have lt: "a < lim_maxRetries L" and lt1: "int a < int (lim_maxRetries L) - 1"
    using Suc.prems(2) by auto
  have "fst (processor item index a) = Inl (Error (msgs a))"
    using Suc.prems(1) by simp
  then obtain es where
    t: "try_attempt processor onProgress tot item index a = (Inl (Error (msgs a)), es)"
    by (cases "processor item index a") (auto simp: try_attempt_def)
  have c: "catch_check (Error (msgs a)) = Inr (isRateLimit (msgs a))"
    by (simp add: catch_check_def)
  have b: "backoff L (isRateLimit (msgs a)) a = [Slept (delay_rule L msgs a)]"
    using lt1 by (simp add: backoff_def delay_rule_def)
  have IH: "take m (delays_of (snd (retry_loop L processor onProgress tot item index (Suc a)
                (Some (Error (msgs a))))))
           = map (delay_rule L msgs) [Suc a ..< Suc a + m]"
    using Suc.IH[of "Suc a" "Some (Error (msgs a))"] Suc.prems by simp
  have up: "[a ..< a + Suc m] = a # [Suc a ..< Suc a + m]"
    using upt_conv_Cons[of a "a + Suc m"] by simp
  have step: "delays_of (snd (retry_loop L processor onProgress tot item index a le))
      = delay_rule L msgs a
          # delays_of (snd (retry_loop L processor onProgress tot item index (Suc a)
                (Some (Error (msgs a)))))"
    by (simp add: retry_loop_fail[OF lt t c] b delays_of_append delays_of_Emitted)
  show ?case
    by (simp only: step up take_Suc_Cons list.map IH)
qed


text \<open>
  C6, as amended. Let the calls of the processor on an item with loop counters
  \<open>0, \<dots>, k - 1\<close> all reject with \<open>Error\<close> objects, with \<open>1 \<le> k < maxRetries\<close>, so
  that a retry remains after each of them. Then the task sleeps before its \<open>k\<close>-th retry, for
  \<open>initialBackoff * 2 ^ (k - 1)\<close> milliseconds when the failure before it is detected as
  rate-limited and for the flat \<open>initialBackoff\<close> otherwise. Among the delays after
  rate-limited failures, a later one is strictly longer than an earlier one provided
  \<open>initialBackoff\<close> is positive.
\<close>

theorem backoff_schedule:
  assumes "i < length items"
      and "\<forall>j<k. fst (processor (items ! i) i j) = Inl (Error (msgs j))"
      and "k < lim_maxRetries L"
      and "1 \<le> k"
  shows "k \<le> length (delays_of (snd (run_items L processor onProgress items ! i)))
       \<and> delays_of (snd (run_items L processor onProgress items ! i)) ! (k - 1)
           = (if isRateLimit (msgs (k - 1)) then lim_initialBackoffMs L * 2 ^ (k - 1)
              else lim_initialBackoffMs L)
       \<and> (\<forall>m<k - 1. 0 < lim_initialBackoffMs L \<and> isRateLimit (msgs m) \<and> isRateLimit (msgs (k - 1))
             \<longrightarrow> delays_of (snd (run_items L processor onProgress items ! i)) ! m
                  < delays_of (snd (run_items L processor onProgress items ! i)) ! (k - 1))"
proof -
  let ?ds = "delays_of (snd (run_items L processor onProgress items ! i))"
  have tk: "take k ?ds = map (delay_rule L msgs) [0 ..< k]"
    using retry_loop_delays[of 0 k processor "items ! i" i msgs L onProgress "length items" None]
      assms by (simp add: run_items_nth)
  have len: "k \<le> length ?ds"
  proof -
    have "length (take k ?ds) = k" by (simp add: tk)
    then show ?thesis by simp
  qed
  have nth: "?ds ! m = delay_rule L msgs m" if "m < k" for m
  proof -
    have "?ds ! m = take k ?ds ! m" using that by simp
    also have "\<dots> = delay_rule L msgs m" using that by (simp add: tk)
    finally show ?thesis .
  qed
  have last: "?ds ! (k - 1) = delay_rule L msgs (k - 1)"
    using nth[of "k - 1"] assms(4) by simp
  have incr: "?ds ! m < ?ds ! (k - 1)"
    if "m < k - 1" "0 < lim_initialBackoffMs L" "isRateLimit (msgs m)" "isRateLimit (msgs (k - 1))" for m
  proof -
    have "(2::nat) ^ m < 2 ^ (k - 1)" using that(1) by simp
    then have "lim_initialBackoffMs L * 2 ^ m < lim_initialBackoffMs L * 2 ^ (k - 1)"
      using that(2) by simp
    then show ?thesis
      using nth[of m] last that by (simp add: delay_rule_def)
  qed
  show ?thesis
    using len last incr by (simp add: delay_rule_def)
qed

theorem backoff_schedule_witness:
  "delays_of (snd (run_items default_limiter
       (\<lambda>item index attempt. (Inl (Error (js ''429 Too Many Requests'')) :: js_error + unit, [] :: unit list))
       no_callback [()] ! 0)) ! 1 = 2000
   \<and> isRateLimit (js ''429 Too Many Requests'')"
proof -
  have r: "isRateLimit (js ''429 Too Many Requests'')"
    by (simp add: isRateLimit_def js_def)
  show ?thesis
    using backoff_schedule[of 0 "[()]" 2
        "\<lambda>item index attempt. (Inl (Error (js ''429 Too Many Requests'')) :: js_error + unit, [] :: unit list)"
        "\<lambda>j. js ''429 Too Many Requests''" default_limiter no_callback] r
    by (simp add: default_limiter_def)
qed

text \<open>
  C6 as stated fails for \<open>initialBackoffMs = 0\<close>: an item that is rate-limited on every
  call sleeps 0 ms before its first retry and 0 ms before its second, which is not
  strictly increasing.
\<close>

theorem backoff_not_increasing_counterexample:
  "delays_of (snd (run_items \<lparr>lim_concurrency = 5, lim_maxRetries = 3, lim_initialBackoffMs = 0\<rparr>
       (\<lambda>item index attempt. (Inl (Error (js ''429'')) :: js_error + unit, [] :: unit list))
       no_callback [()] ! 0)) = [0, 0]
   \<and> isRateLimit (js ''429'')"
  by (simp add: run_items_def retry_loop.simps try_attempt_def backoff_def isRateLimit_def js_def
      catch_check_def no_callback_def Let_def)

section \<open>Properties of the map and reduce phases\<close>

lemma split_ws_nil: "dropWhile (\<lambda>c. \<not> is_space c) s = [] \<Longrightarrow> split_ws s = [s]"
  by (subst split_ws.simps) (simp only: list.case)

lemma split_ws_cons:
  "dropWhile (\<lambda>c. \<not> is_space c) s = r # rs \<Longrightarrow>
   split_ws s = takeWhile (\<lambda>c. \<not> is_space c) s # split_ws (dropWhile is_space rs)"
  by (subst split_ws.simps) (simp only: list.case)

lemma split_ws_ne: "split_ws s \<noteq> []"
  by (subst split_ws.simps) (simp split: list.splits)

lemma split_ws_no_space: "w \<in> set (split_ws s) \<Longrightarrow> c \<in> set w \<Longrightarrow> \<not> is_space c"
proof (induction s arbitrary: w rule: split_ws.induct)
  case (1 s)
  show ?case
  proof (cases "dropWhile (\<lambda>c. \<not> is_space c) s")
    case Nil
    then have "\<forall>c \<in> set s. \<not> is_space c"
      by (simp add: dropWhile_eq_Nil_conv)
    with Nil "1.prems" show ?thesis
      by (simp add: split_ws_nil)
  next
    case (Cons r rs)
    from "1.prems"(1) have "w = takeWhile (\<lambda>c. \<not> is_space c) s \<or> w \<in> set (split_ws (dropWhile is_space rs))"
      by (simp add: split_ws_cons[OF Cons])
    then show ?thesis
    proof
      assume "w = takeWhile (\<lambda>c. \<not> is_space c) s"
      with "1.prems"(2) show ?thesis
        by (auto dest: set_takeWhileD)
    next
      assume "w \<in> set (split_ws (dropWhile is_space rs))"
      then show ?thesis
        using "1.IH"[OF Cons] "1.prems"(2) by blast
    qed
  qed
qed

text \<open>A text that does not start with white space: every piece but the last is not empty.\<close>

lemma split_ws_inner:
  "s = [] \<or> \<not> is_space (hd s) \<Longrightarrow> w \<in> set (butlast (split_ws s)) \<Longrightarrow> w \<noteq> []"
proof (induction s arbitrary: w rule: split_ws.induct)
  case (1 s)
  show ?case
  proof (cases "dropWhile (\<lambda>c. \<not> is_space c) s")
    case Nil
    with "1.prems" show ?thesis
      by (simp add: split_ws_nil)
  next
    case (Cons r rs)
    let ?s' = "dropWhile is_space rs"
    have s: "s \<noteq> []" using Cons by auto
    then have hd: "\<not> is_space (hd s)" using "1.prems"(1) by simp
    have tw: "takeWhile (\<lambda>c. \<not> is_space c) s \<noteq> []"
      using s hd by (cases s) auto
    have s': "?s' = [] \<or> \<not> is_space (hd ?s')"
      by (metis hd_dropWhile)
    from "1.prems"(2) have "w = takeWhile (\<lambda>c. \<not> is_space c) s \<or> w \<in> set (butlast (split_ws ?s'))"
      by (simp add: split_ws_cons[OF Cons] split_ws_ne)
    then show ?thesis
    proof
      assume "w = takeWhile (\<lambda>c. \<not> is_space c) s"
      then show ?thesis using tw by simp
    next
      assume "w \<in> set (butlast (split_ws ?s'))"
      then show ?thesis by (rule "1.IH"[OF Cons s'])
    qed
  qed
qed

lemma split_ws_middle:
  assumes "0 < i" and "Suc i < length (split_ws s)"
  shows "split_ws s ! i \<noteq> []"
proof (cases "dropWhile (\<lambda>c. \<not> is_space c) s")
  case Nil
  with assms show ?thesis by (simp add: split_ws_nil)
next
  case (Cons r rs)
  let ?s' = "dropWhile is_space rs"
  let ?t = "split_ws ?s'"
  have s': "?s' = [] \<or> \<not> is_space (hd ?s')"
    by (metis hd_dropWhile)
  obtain j where j: "i = Suc j" using assms(1) by (cases i) auto
  have lt: "Suc j < length ?t"
    using assms(2) by (simp add: split_ws_cons[OF Cons] j)
  then have "?t ! j = butlast ?t ! j"
    by (simp add: nth_butlast)
  moreover have "butlast ?t ! j \<in> set (butlast ?t)"
    using lt by (intro nth_mem) simp
  ultimately have "?t ! j \<noteq> []"
    using split_ws_inner[OF s'] by metis
  then show ?thesis
    by (simp add: split_ws_cons[OF Cons] j)
qed

lemma dropWhile_not_space_append:
  "\<forall>c \<in> set w. \<not> is_space c \<Longrightarrow> dropWhile (\<lambda>c. \<not> is_space c) (w @ r) = dropWhile (\<lambda>c. \<not> is_space c) r"
  by (induction w) auto

lemma takeWhile_not_space_append:
  "\<forall>c \<in> set w. \<not> is_space c \<Longrightarrow> is_space x \<Longrightarrow> takeWhile (\<lambda>c. \<not> is_space c) (w @ x # r) = w"
  by (induction w) auto

lemma split_ws_join:
  assumes "ws \<noteq> []"
      and "\<forall>w \<in> set ws. \<forall>c \<in> set w. \<not> is_space c"
      and "\<forall>w \<in> set (tl ws). w \<noteq> []"
      and "\<forall>c \<in> set t. \<not> is_space c"
  shows "split_ws (join [32] ws @ t) = butlast ws @ [last ws @ t]"
  using assms
proof (induction ws)
  case Nil
  then show ?case by simp
next
  case (Cons x ws)
  show ?case
  proof (cases ws)
    case Nil
    have "dropWhile (\<lambda>c. \<not> is_space c) (x @ t) = []"
      using Cons.prems by (simp add: dropWhile_eq_Nil_conv)
    then show ?thesis
      using Nil by (simp add: split_ws_nil)
  next
    case (Cons y ys)
    let ?R = "join [32] (y # ys) @ t"
    have sp: "is_space 32" by (simp add: is_space_def)
    have x: "\<forall>c \<in> set x. \<not> is_space c" using Cons.prems(2) by simp
    have y: "y \<noteq> []" "\<forall>c \<in> set y. \<not> is_space c"
      using Cons.prems(2,3) Cons by simp_all
    have hdR: "?R \<noteq> [] \<and> \<not> is_space (hd ?R)"
      using y by (cases y; cases ys) auto
    then have dR: "dropWhile is_space ?R = ?R"
      by (cases ?R) auto
    have d: "dropWhile (\<lambda>c. \<not> is_space c) (x @ 32 # ?R) = 32 # ?R"
      using x sp by (simp add: dropWhile_not_space_append)
    have tk: "takeWhile (\<lambda>c. \<not> is_space c) (x @ 32 # ?R) = x"
      using takeWhile_not_space_append[OF x sp, of ?R] by simp
    have IH: "split_ws ?R = butlast (y # ys) @ [last (y # ys) @ t]"
      using Cons.IH Cons.prems Cons by simp
    have "split_ws (x @ 32 # ?R) = x # split_ws ?R"
      using split_ws_cons[OF d] tk dR by simp
    then show ?thesis
      using IH Cons by simp
  qed
qed

lemma js_space: "js '' '' = [32]"
  by (simp add: js_def)

lemma js_dots: "js ''...'' = [46, 46, 46]"
  by (simp add: js_def)

lemma truncateToWords_split:
  assumes "n < length (split_ws s)" and "0 < n"
  shows "split_ws (truncateToWords s n)
           = take (n - 1) (split_ws s) @ [split_ws s ! (n - 1) @ js ''...'']"
proof -
  let ?ws = "take n (split_ws s)"
  have ne: "?ws \<noteq> []" using assms by auto
  have ns: "\<forall>w \<in> set ?ws. \<forall>c \<in> set w. \<not> is_space c"
    using split_ws_no_space by (meson in_set_takeD)
  have inner: "\<forall>w \<in> set (tl ?ws). w \<noteq> []"
  proof
    fix w assume "w \<in> set (tl ?ws)"
    then obtain j where j: "j < length (tl ?ws)" "w = tl ?ws ! j"
      by (metis in_set_conv_nth)
    then have "w = split_ws s ! Suc j" and "Suc (Suc j) < length (split_ws s)"
      using assms by (simp_all add: nth_tl)
    then show "w \<noteq> []"
      using split_ws_middle[of "Suc j" s] by simp
  qed
  have t: "\<forall>c \<in> set (js ''...''). \<not> is_space c"
    by (simp add: js_dots is_space_def)
  have bl: "butlast ?ws = take (n - 1) (split_ws s)"
    using assms by (simp add: butlast_take)
  have la: "last ?ws = split_ws s ! (n - 1)"
    using assms ne by (simp add: last_conv_nth)
  have "truncateToWords s n = join [32] ?ws @ js ''...''"
    using assms by (simp add: truncateToWords_def Let_def js_space)
  then show ?thesis
    using split_ws_join[OF ne ns inner t] bl la by simp
qed

lemma truncateToWords_cap:
  assumes "0 < n"
  shows "length (split_ws (truncateToWords s n)) \<le> n"
proof (cases "length (split_ws s) \<le> n")
  case True
  then show ?thesis by (simp add: truncateToWords_def)
next
  case False
  then have "n < length (split_ws s)" by simp
  from truncateToWords_split[OF this assms] show ?thesis
    using assms False by simp
qed

lemma summarize_one_cap:
  "summarize_one numstr r = Inr s \<Longrightarrow> length (split_ws s) \<le> 200"
  using truncateToWords_cap[of 200]
  by (auto simp: summarize_one_def MAX_SUMMARY_WORDS_def split: sum.splits)

lemma mapSummarize_cap:
  "mapSummarize numstr results = Inr outs \<Longrightarrow> \<forall>s \<in> set outs. length (split_ws s) \<le> 200"
proof (induction results arbitrary: outs)
  case Nil
  then show ?case by simp
next
  case (Cons r rs)
  then show ?case
    by (auto split: sum.splits dest: summarize_one_cap)
qed


lemma mapSummarize_length:
  "mapSummarize numstr results = Inr outs \<Longrightarrow> length outs = length results"
  by (induction results arbitrary: outs) (auto split: sum.splits)

lemma summarize_one_plain:
  "get_prop (details r) (js ''key_findings'') = None \<Longrightarrow>
   summarize_one numstr r = Inr (truncateToWords (summary r) MAX_SUMMARY_WORDS)"
  by (cases "details r") (simp_all add: summarize_one_def)

text \<open>
  C8. Every summary \<open>mapSummarize\<close> returns has at most 200 words, counted as the code
  counts them (the pieces of \<open>split(/\s+/)\<close>), and there is one summary per result. A
  result whose \<open>summary\<close> has 1000 words and whose details carry no \<open>key_findings\<close> is
  summarised by its first 200 words, joined by single spaces and followed by the
  ellipsis \<open>...\<close>; that text splits into those 200 words again, the last one carrying
  the ellipsis.
\<close>

theorem mapSummarize_word_cap:
  "(\<forall>outs. mapSummarize numstr results = Inr outs \<longrightarrow>
      length outs = length results \<and> (\<forall>s \<in> set outs. length (split_ws s) \<le> 200))
   \<and> (length (split_ws (summary r)) = 1000 \<and> get_prop (details r) (js ''key_findings'') = None \<longrightarrow>
      mapSummarize numstr [r]
        = Inr [join (js '' '') (take 200 (split_ws (summary r))) @ js ''...'']
      \<and> split_ws (join (js '' '') (take 200 (split_ws (summary r))) @ js ''...'')
        = take 199 (split_ws (summary r)) @ [split_ws (summary r) ! 199 @ js ''...''])"
proof -
  have a: "\<forall>outs. mapSummarize numstr results = Inr outs \<longrightarrow>
      length outs = length results \<and> (\<forall>s \<in> set outs. length (split_ws s) \<le> 200)"
    using mapSummarize_cap mapSummarize_length by blast
  have b: "mapSummarize numstr [r]
        = Inr [join (js '' '') (take 200 (split_ws (summary r))) @ js ''...'']
      \<and> split_ws (join (js '' '') (take 200 (split_ws (summary r))) @ js ''...'')
        = take 199 (split_ws (summary r)) @ [split_ws (summary r) ! 199 @ js ''...'']"
    if len: "length (split_ws (summary r)) = 1000"
      and nf: "get_prop (details r) (js ''key_findings'') = None"
  proof -
    have t: "truncateToWords (summary r) 200
               = join (js '' '') (take 200 (split_ws (summary r))) @ js ''...''"
      using len by (simp add: truncateToWords_def)
    have "split_ws (truncateToWords (summary r) 200)
            = take 199 (split_ws (summary r)) @ [split_ws (summary r) ! 199 @ js ''...'']"
      using truncateToWords_split[of 200 "summary r"] len by simp
    then show ?thesis
      using t by (simp add: summarize_one_plain[OF nf] MAX_SUMMARY_WORDS_def)
  qed
  show ?thesis using a b by blast
qed

lemma split_ws_join_words:
  assumes "ws \<noteq> []" and "\<forall>w \<in> set ws. w \<noteq> [] \<and> (\<forall>c \<in> set w. \<not> is_space c)"
  shows "split_ws (join [32] ws) = ws"
proof -
  have "\<forall>w \<in> set (tl ws). w \<noteq> []"
    using assms by (meson list.set_sel(2))
  then show ?thesis
    using split_ws_join[of ws "[]"] assms by (simp add: snoc_eq_iff_butlast)
qed

theorem mapSummarize_word_cap_witness:
  "length (split_ws (join [32] (replicate 1000 (js ''w'')))) = 1000
   \<and> mapSummarize (\<lambda>q. [])
       [\<lparr>summary = join [32] (replicate 1000 (js ''w'')), details = JObj [],
         sources = None, confidence = 1 / 2\<rparr>]
     = Inr [join (js '' '') (replicate 200 (js ''w'')) @ js ''...'']
   \<and> length (split_ws (join (js '' '') (replicate 200 (js ''w'')) @ js ''...'')) \<le> 200"
proof -
  let ?r = "\<lparr>summary = join [32] (replicate 1000 (js ''w'')), details = JObj [],
         sources = None, confidence = 1 / 2\<rparr>"
  have w: "\<forall>w \<in> set (replicate 1000 (js ''w'')). w \<noteq> [] \<and> (\<forall>c \<in> set w. \<not> is_space c)"
    by (simp add: js_def is_space_def)
  have s: "split_ws (join [32] (replicate 1000 (js ''w''))) = replicate 1000 (js ''w'')"
    by (rule split_ws_join_words[OF _ w]) simp
  have tk: "take 200 (replicate 1000 (js ''w'')) = replicate 200 (js ''w'')"
    by simp
  show ?thesis
    using mapSummarize_word_cap[of "\<lambda>q. []" "[?r]" ?r] s tk
    by simp
qed

lemma chunk_count_step:
  assumes "0 < (m::nat)"
  shows "Suc ((m - 5 + 4) div 5) = (m + 4) div 5"
proof (cases "m < 5")
  case True
  have "(m + 4) div 5 = 1"
    by (rule div_nat_eqI) (use True assms in simp_all)
  then show ?thesis using True by simp
next
  case False
  then obtain k where k: "m = k + 5"
    by (metis add.commute le_Suc_ex not_less)
  have "(k + 4 + 5) div 5 = Suc ((k + 4) div 5)"
    by simp
  then show ?thesis
    by (simp add: k add.commute add.left_commute)
qed

lemma chunks_from_length:
  "length (chunks_from xs i) = (length xs - i + 4) div 5"
proof (induction xs i rule: chunks_from.induct)
  case (1 summaries i)
  show ?case
  proof (cases "i < length summaries")
    case True
    then have "length (chunks_from summaries i) = Suc ((length summaries - (i + 5) + 4) div 5)"
      using 1 by (subst chunks_from.simps) (simp add: AGGREGATION_CHUNK_SIZE_def)
    also have "\<dots> = Suc ((length summaries - i - 5 + 4) div 5)"
      by simp
    also have "\<dots> = (length summaries - i + 4) div 5"
      using True by (intro chunk_count_step) simp
    finally show ?thesis .
  next
    case False
    then show ?thesis
      by (subst chunks_from.simps) simp
  qed
qed

lemma chunks_from_12:
  assumes "length xs = 12"
  shows "chunks_from xs 0 = [take 5 xs, take 5 (drop 5 xs), drop 10 xs]"
proof -
  have "chunks_from xs 15 = []"
    using assms by (subst chunks_from.simps) simp
  then have "chunks_from xs 10 = [drop 10 xs]"
    using assms by (subst chunks_from.simps) (simp add: AGGREGATION_CHUNK_SIZE_def)
  then have "chunks_from xs 5 = [take 5 (drop 5 xs), drop 10 xs]"
    using assms by (subst chunks_from.simps) (simp add: AGGREGATION_CHUNK_SIZE_def)
  then show ?thesis
    using assms by (subst chunks_from.simps) (simp add: AGGREGATION_CHUNK_SIZE_def)
qed

lemma first_level_length: "length (first_level gemini n chunks q) = length chunks"
  by (induction chunks arbitrary: n) auto

text \<open>
  C7. A call of \<open>reduceAggregate\<close> with at most 5 summaries (the chunk size) issues
  exactly one aggregation call, on the summaries themselves. With 12 summaries it issues
  three calls on the chunks (of 5, 5 and 2 summaries) and then one final call on the
  three summaries of the chunks. Whatever the number of summaries, every call is of the
  first or of the second level, at most one call is of the second level, and the number
  of calls is 1, or the number of chunks plus 1: the reduction never goes deeper.
\<close>

theorem reduceAggregate_calls:
  "(length summaries \<le> 5 \<longrightarrow>
      snd (reduceAggregate gemini summaries q) = [AggCall 1 summaries])
   \<and> (length summaries = 12 \<longrightarrow>
      (\<exists>finals. snd (reduceAggregate gemini summaries q)
         = [AggCall 1 (take 5 summaries), AggCall 1 (take 5 (drop 5 summaries)),
            AggCall 1 (drop 10 summaries), AggCall 2 finals] \<and> length finals = 3))
   \<and> (\<forall>c \<in> set (snd (reduceAggregate gemini summaries q)). level c = 1 \<or> level c = 2)
   \<and> length (filter (\<lambda>c. level c = 2) (snd (reduceAggregate gemini summaries q))) \<le> 1
   \<and> length (snd (reduceAggregate gemini summaries q))
        = (if length summaries \<le> 5 then 1 else (length summaries + 4) div 5 + 1)"
proof -
  have a: "length summaries \<le> 5 \<longrightarrow>
      snd (reduceAggregate gemini summaries q) = [AggCall 1 summaries]"
    by (simp add: reduceAggregate_def AGGREGATION_CHUNK_SIZE_def)
  have b: "length summaries = 12 \<longrightarrow>
      (\<exists>finals. snd (reduceAggregate gemini summaries q)
         = [AggCall 1 (take 5 summaries), AggCall 1 (take 5 (drop 5 summaries)),
            AggCall 1 (drop 10 summaries), AggCall 2 finals] \<and> length finals = 3)"
    by (simp add: reduceAggregate_def AGGREGATION_CHUNK_SIZE_def chunks_from_12 Let_def)
  have c: "\<forall>c \<in> set (snd (reduceAggregate gemini summaries q)). level c = 1 \<or> level c = 2"
    by (auto simp: reduceAggregate_def Let_def)
  have f: "filter (\<lambda>c. level c = 2) (map (AggCall 1) cs) = []" for cs
    by (induction cs) auto
  have d: "length (filter (\<lambda>c. level c = 2) (snd (reduceAggregate gemini summaries q))) \<le> 1"
    by (simp add: reduceAggregate_def Let_def f)
  have e: "length (snd (reduceAggregate gemini summaries q))
        = (if length summaries \<le> 5 then 1 else (length summaries + 4) div 5 + 1)"
    by (simp add: reduceAggregate_def Let_def chunks_from_length AGGREGATION_CHUNK_SIZE_def)
  show ?thesis using a b c d e by blast
qed


theorem reduceAggregate_calls_witness:
  "snd (reduceAggregate (\<lambda>n prompt. Inr (js ''ok'')) [js ''a'', js ''b'', js ''c''] (js ''q''))
     = [AggCall 1 [js ''a'', js ''b'', js ''c'']]
   \<and> length (snd (reduceAggregate (\<lambda>n prompt. Inr (js ''ok'')) (replicate 12 (js ''s'')) (js ''q''))) = 4
   \<and> snd (reduceAggregate (\<lambda>n prompt. Inr (js ''ok'')) (replicate 12 (js ''s'')) (js ''q'')) ! 3
       = AggCall 2 (replicate 3 (js ''ok''))"
proof -
  have f: "first_level (\<lambda>n prompt. Inr (js ''ok'')) 0
            [take 5 (replicate 12 (js ''s'')), take 5 (drop 5 (replicate 12 (js ''s''))),
             drop 10 (replicate 12 (js ''s''))] (js ''q'') = replicate 3 (js ''ok'')"
    by (simp add: aggregateSummaries_def numeral_3_eq_3)
  have c: "chunks_from (replicate 12 (js ''s'')) 0
         = [take 5 (replicate 12 (js ''s'')), take 5 (drop 5 (replicate 12 (js ''s''))),
             drop 10 (replicate 12 (js ''s''))]"
    by (rule chunks_from_12) simp
  have l: "snd (reduceAggregate (\<lambda>n prompt. Inr (js ''ok'')) (replicate 12 (js ''s'')) (js ''q'')) ! 3
       = AggCall 2 (replicate 3 (js ''ok''))"
    unfolding reduceAggregate_def Let_def c f by (simp add: AGGREGATION_CHUNK_SIZE_def)
  show ?thesis
    using reduceAggregate_calls[of "[js ''a'', js ''b'', js ''c'']" "\<lambda>n prompt. Inr (js ''ok'')" "js ''q''"]
      reduceAggregate_calls[of "replicate 12 (js ''s'')" "\<lambda>n prompt. Inr (js ''ok'')" "js ''q''"] l
    by simp
qed

section \<open>Properties of the extraction\<close>

lemma has_brace_region_iff:
  "has_brace_region s \<longleftrightarrow> (\<exists>a b c. s = a @ 123 # b @ 125 # c)"
proof
  assume h: "has_brace_region s"
  let ?d = "dropWhile (\<lambda>c. c \<noteq> 123) s"
  have ne: "?d \<noteq> []"
  proof
    assume e: "?d = []"
    show False using h unfolding has_brace_region_def e by simp
  qed
  then have hd: "hd ?d = 123" using hd_dropWhile[of "\<lambda>c. c \<noteq> 123" s] by simp
  then obtain r where d: "?d = 123 # r" using ne by (cases ?d) auto
  with h have "125 \<in> set r" by (simp add: has_brace_region_def)
  then obtain b c where "r = b @ 125 # c" by (meson split_list)
  then have "s = takeWhile (\<lambda>c. c \<noteq> 123) s @ 123 # b @ 125 # c"
    using d takeWhile_dropWhile_id[of "\<lambda>c. c \<noteq> 123" s] by simp
  then show "\<exists>a b c. s = a @ 123 # b @ 125 # c" by blast
next
  assume "\<exists>a b c. s = a @ 123 # b @ 125 # c"
  then obtain a b c where s: "s = (a @ [123]) @ (b @ 125 # c)" by auto
  have "dropWhile (\<lambda>c. c \<noteq> 123) s = dropWhile (\<lambda>c. c \<noteq> 123) (a @ [123]) @ (b @ 125 # c)"
    unfolding s by (rule dropWhile_append1[of 123]) simp_all
  then show "has_brace_region s" by (simp add: has_brace_region_def)
qed

lemma has_brace_region_sublist:
  assumes "sublist s t" and "has_brace_region s"
  shows "has_brace_region t"
proof -
  obtain p q where t: "t = p @ s @ q" using assms(1) by (auto simp: sublist_def)
  obtain a b c where "s = a @ 123 # b @ 125 # c"
    using assms(2) by (auto simp: has_brace_region_iff)
  then have "t = (p @ a) @ 123 # b @ 125 # (c @ q)" using t by simp
  then show ?thesis unfolding has_brace_region_iff by blast
qed

lemma has_brace_region_mem:
  "sublist (123 # r) s \<Longrightarrow> 125 \<in> set r \<Longrightarrow> has_brace_region s"
  by (rule has_brace_region_sublist[of "123 # r"]) (simp_all add: has_brace_region_def)

lemma scan_no_close: "125 \<notin> set cs \<Longrightarrow> scan d i e cs = None"
  by (induction cs arbitrary: d i e) (auto simp: scan.simps)

lemma findJSONObject_region: "findJSONObject s = Some m \<Longrightarrow> has_brace_region s"
proof -
  assume a: "findJSONObject s = Some m"
  then obtain c cs where d: "dropWhile (\<lambda>c. c \<noteq> 123) s = c # cs"
    by (auto simp: findJSONObject_def split: list.splits)
  with a have "scan 0 False False (c # cs) \<noteq> None"
    by (auto simp: findJSONObject_def split: option.splits)
  then have "125 \<in> set (c # cs)"
    by (rule contrapos_np) (rule scan_no_close)
  then show ?thesis using d by (simp add: has_brace_region_def)
qed

lemma sublist_trans: "sublist a b \<Longrightarrow> sublist b c \<Longrightarrow> sublist a (c :: 'a list)"
  by (rule sublist_order.order_trans)

lemma brace_block_region: "brace_block s = Some m \<Longrightarrow> has_brace_region s"
  by (cases s) (auto simp: brace_block_def has_brace_region_def split: if_splits)

lemma label_at_sublist: "label_at s = Some r \<Longrightarrow> sublist r s"
  by (auto simp: label_at_def split: if_splits)

lemma label_pattern_at_region: "label_pattern_at s = Some m \<Longrightarrow> has_brace_region s"
proof -
  assume a: "label_pattern_at s = Some m"
  then obtain r where r: "label_at s = Some r"
    by (auto simp: label_pattern_at_def split: option.splits)
  let ?r1 = "dropWhile is_space r"
  let ?r2 = "if ?r1 \<noteq> [] \<and> (hd ?r1 = 58 \<or> hd ?r1 = 61) then tl ?r1 else ?r1"
  have b: "brace_block (dropWhile is_space ?r2) = Some m"
    using a r by (simp add: label_pattern_at_def Let_def)
  have "sublist ?r2 ?r1" by simp
  then have "sublist (dropWhile is_space ?r2) s"
    using label_at_sublist[OF r]
    by (meson sublist_dropWhile sublist_trans)
  then show ?thesis
    using brace_block_region[OF b] has_brace_region_sublist by blast
qed


lemma label_pattern_region: "label_pattern s = Some m \<Longrightarrow> has_brace_region s"
proof (induction s)
  case Nil
  then show ?case by simp
next
  case (Cons c cs)
  show ?case
  proof (cases "label_pattern_at (c # cs)")
    case None
    with Cons have "has_brace_region cs" by simp
    then show ?thesis
      by (rule has_brace_region_sublist[rotated]) (simp add: sublist_Cons_right)
  next
    case (Some m')
    then show ?thesis by (rule label_pattern_at_region)
  qed
qed


lemma after_ci_suffix: "after_ci pat s = Some r \<Longrightarrow> suffix r s"
proof (induction s)
  case Nil
  then show ?case by (simp split: if_splits)
next
  case (Cons c cs)
  then show ?case
    by (auto split: if_splits intro: suffix_drop suffix_ConsI)
qed


lemma summary_pattern_region: "summary_pattern s = Some m \<Longrightarrow> has_brace_region s"
proof -
  assume a: "summary_pattern s = Some m"
  then obtain c r r1 r2 where d: "dropWhile (\<lambda>c. c \<noteq> 123) s = c # r"
    and r1: "after_ci (34 # js ''summary'' @ [34]) r = Some r1"
    and r2: "after_ci (34 # js ''confidence'' @ [34]) r1 = Some r2"
    and m: "125 \<in> set r2"
    by (auto simp: summary_pattern_def split: list.splits option.splits if_splits)
  have "suffix r2 r"
    using after_ci_suffix[OF r1] after_ci_suffix[OF r2] by (rule suffix_order.trans[rotated])
  then have "125 \<in> set r" using m by (meson set_mono_suffix subsetD)
  then show ?thesis using d by (simp add: has_brace_region_def)
qed


lemma trailing_pattern_region: "trailing_pattern s = Some m \<Longrightarrow> has_brace_region s"
proof -
  assume a: "trailing_pattern s = Some m"
  then obtain c r where d: "dropWhile (\<lambda>c. c \<noteq> 123) s = c # r"
    and t: "rev (dropWhile is_space (rev r)) \<noteq> []" "last (rev (dropWhile is_space (rev r))) = 125"
    by (auto simp: trailing_pattern_def Let_def split: list.splits if_splits)
  have "125 \<in> set (rev (dropWhile is_space (rev r)))"
    using t last_in_set by metis
  then have "125 \<in> set r" by (auto dest: set_dropWhileD)
  then show ?thesis using d by (simp add: has_brace_region_def)
qed


lemma extractJSONFromText_region:
  "extractJSONFromText s = Some m \<Longrightarrow> has_brace_region s"
  using label_pattern_region[of s] summary_pattern_region[of s] trailing_pattern_region[of s]
  by (cases "label_pattern s"; cases "summary_pattern s"; cases "trailing_pattern s")
     (auto simp: extractJSONFromText_def split: if_splits)


lemma sublist_trim: "sublist (trim s) s"
proof -
  let ?y = "dropWhile is_space s"
  have "sublist (dropWhile is_space (rev ?y)) (rev ?y)"
    by (rule sublist_dropWhile)
  then have "sublist (trim s) ?y"
    by (simp add: trim_def sublist_rev_left)
  then show ?thesis
    by (rule sublist_trans) (rule sublist_dropWhile)
qed

lemma sublist_fence_group: "sublist (fence_group s) s"
proof -
  have "sublist (butlast (dropWhile is_space s)) s"
    by (rule sublist_trans[OF sublist_butlast sublist_dropWhile])
  then show ?thesis
    by (simp add: fence_group_def Let_def)
qed

lemma sublist_strip_tag: "sublist (strip_tag s) s"
  by (simp add: strip_tag_def)

lemma sublist_fence_body: "fence_body s = Some b \<Longrightarrow> sublist b s"
proof -
  assume "fence_body s = Some b"
  then have "b = take (length s - 6) (drop 3 s)"
    by (simp add: fence_body_def split: if_splits)
  then show ?thesis
    using sublist_trans[OF sublist_take sublist_drop] by simp
qed

lemma sublist_clean_text: "sublist (clean_text text) text"
proof -
  have t: "sublist (trim text) text" by (rule sublist_trim)
  have b: "sublist (trim (fence_group x)) text"
    if "fence_body (trim text) = Some y" "sublist x y" for x y
  proof -
    have "sublist (trim (fence_group x)) x"
      by (rule sublist_trans[OF sublist_trim sublist_fence_group])
    then have "sublist (trim (fence_group x)) y"
      using that(2) by (rule sublist_trans)
    then have "sublist (trim (fence_group x)) (trim text)"
      using sublist_fence_body[OF that(1)] by (rule sublist_trans)
    then show ?thesis using t by (rule sublist_trans)
  qed
  show ?thesis
  proof (cases "fence_body (trim text)")
    case None
    then show ?thesis
      using t by (simp add: clean_text_def Let_def tagged_fence_def plain_fence_def)
  next
    case (Some y)
    then show ?thesis
      using b[OF Some sublist_strip_tag]
      by (simp add: clean_text_def Let_def tagged_fence_def plain_fence_def)
  qed
qed

lemma JSON_parse_empty: "JSON_parse [] = None"
  by (simp add: JSON_parse_def skip_ws_def)


lemma clean_text_empty: "clean_text [] = []"
  by (simp add: clean_text_def trim_def tagged_fence_def plain_fence_def fence_body_def)


text \<open>
  C3, as amended. For every input string in which no \<open>{\<close> is followed by a \<open>}\<close>, and
  so with no balanced \<open>{\<close>...\<open>}\<close> region, \<open>extractJSON\<close> returns what \<open>JSON.parse\<close>
  gives for the cleaned text when that text is itself JSON (a number, a string, a
  boolean, \<open>null\<close> or an array of such), and \<open>null\<close> otherwise: neither the bracket
  scan nor the search in prose finds anything.
\<close>

theorem extractJSON_no_brace_region:
  assumes "\<not> has_brace_region text"
  shows "extractJSON text = (case JSON_parse (clean_text text) of Some v \<Rightarrow> v | None \<Rightarrow> JNull)"
proof (cases "text = []")
  case True
  then show ?thesis
    by (simp add: extractJSON_def clean_text_empty JSON_parse_empty)
next
  case False
  have n: "\<not> has_brace_region (clean_text text)"
    using assms has_brace_region_sublist[OF sublist_clean_text] by blast
  have f: "findJSONObject (clean_text text) = None"
    using n findJSONObject_region by (cases "findJSONObject (clean_text text)") auto
  have e: "extractJSONFromText (clean_text text) = None"
    using n extractJSONFromText_region by (cases "extractJSONFromText (clean_text text)") auto
  show ?thesis
    using False by (simp add: extractJSON_def Let_def f e split: option.splits)
qed

theorem extractJSON_no_brace_region_witness:
  "\<not> has_brace_region (js ''not json'') \<and> extractJSON (js ''not json'') = JNull"
proof -
  have n: "\<not> has_brace_region (js ''not json'')" by code_simp
  have p: "JSON_parse (clean_text (js ''not json'')) = None" by code_simp
  show ?thesis
    using extractJSON_no_brace_region[OF n] n p by simp
qed

text \<open>
  C3 as stated fails on the text \<open>42\<close>: it has no brace at all, and \<open>extractJSON\<close>
  returns the number 42, not \<open>null\<close>.
\<close>

theorem extractJSON_number_counterexample:
  "\<not> has_brace_region (js ''42'') \<and> extractJSON (js ''42'') = JNum 42 \<and> JNum 42 \<noteq> JNull"
  by code_simp

text \<open>
  C9. When the cleaned text parses as a falsy value (the number 0, \<open>false\<close>, \<open>null\<close>
  or the empty string), \<open>extractResearchResult\<close> returns \<open>null\<close>, as it does when the
  extraction fails, although the input is valid JSON.
\<close>

theorem falsy_parse_gives_null:
  assumes "JSON_parse (clean_text text) = Some v"
      and "v = JNum 0 \<or> v = JBool False \<or> v = JNull \<or> v = JStr []"
  shows "extractResearchResult numstr text = Inr None"
proof -
  have "extractJSON text = v \<or> extractJSON text = JNull"
    using assms(1) by (simp add: extractJSON_def Let_def)
  then have "\<not> truthy (extractJSON text)"
    using assms(2) by auto
  then show ?thesis
    by (simp add: extractResearchResult_def Let_def)
qed

theorem falsy_parse_gives_null_witness:
  "JSON_parse (clean_text (js ''0'')) = Some (JNum 0)
   \<and> extractResearchResult (\<lambda>q. []) (js ''0'') = Inr None"
proof -
  have p: "JSON_parse (clean_text (js ''0'')) = Some (JNum 0)" by code_simp
  show ?thesis
    using falsy_parse_gives_null[OF p, of "\<lambda>q. []"] p by simp
qed

text \<open>
  C2 fails on the code. The object \<open>{"summary":"x","confidence":5}\<close> fails the
  validation (5 is above 1); the salvage returns it with confidence 5, outside [0,1].
  The object \<open>{"summary":[]}\<close> fails the validation too; its summary is truthy, and
  \<open>String([])\<close> is the empty string, so the salvaged summary is empty.
\<close>

theorem salvage_out_of_range:
  "safeParse (extractJSON (js ''{\"summary\":\"x\",\"confidence\":5}'')) = None
   \<and> extractResearchResult numstr (js ''{\"summary\":\"x\",\"confidence\":5}'')
       = Inr (Some \<lparr>summary = js ''x'', details = JObj [], sources = None, confidence = 5\<rparr>)
   \<and> safeParse (extractJSON (js ''{\"summary\":[]}'')) = None
   \<and> extractResearchResult numstr (js ''{\"summary\":[]}'')
       = Inr (Some \<lparr>summary = [], details = JObj [], sources = None, confidence = 3 / 10\<rparr>)"
  by code_simp

section \<open>Objects embedded in prose or in a fence\<close>

subsection \<open>The bracket scan passes over the text of a JSON value\<close>

lemma map_option_Suc_add:
  "map_option Suc (map_option (\<lambda>k. n + k) x) = map_option (\<lambda>k. Suc n + k) x"
  by (cases x) auto

lemma neutral_Nil: "neutral []"
  by (simp add: neutral_def option.map_ident)

lemma neutral_append:
  assumes "neutral p" and "neutral q"
  shows "neutral (p @ q)"
  unfolding neutral_def
proof (intro allI impI)
  fix d :: int and rest
  assume d: "1 \<le> d"
  have "scan d False False (p @ (q @ rest))
          = map_option (\<lambda>k. length p + k) (scan d False False (q @ rest))"
    using assms(1) d unfolding neutral_def by blast
  also have "scan d False False (q @ rest) = map_option (\<lambda>k. length q + k) (scan d False False rest)"
    using assms(2) d unfolding neutral_def by blast
  finally show "scan d False False ((p @ q) @ rest)
          = map_option (\<lambda>k. length (p @ q) + k) (scan d False False rest)"
    by (simp add: option.map_comp comp_def add.assoc)
qed

lemma neutral_single:
  assumes "c \<noteq> 34" and "c \<noteq> 123" and "c \<noteq> 125"
  shows "neutral [c]"
  unfolding neutral_def using assms
  by (auto simp: scan.simps intro!: option.map_cong)

lemma neutral_Cons:
  "c \<noteq> 34 \<Longrightarrow> c \<noteq> 123 \<Longrightarrow> c \<noteq> 125 \<Longrightarrow> neutral p \<Longrightarrow> neutral (c # p)"
  using neutral_append[OF neutral_single, of c p] by simp

lemma neutral_chars:
  "\<forall>c \<in> set p. c \<noteq> 34 \<and> c \<noteq> 123 \<and> c \<noteq> 125 \<Longrightarrow> neutral p"
  by (induction p) (simp_all add: neutral_Nil neutral_Cons)

lemma neutral_object:
  assumes "neutral m"
  shows "neutral (123 # m @ [125])"
  unfolding neutral_def
proof (intro allI impI)
  fix d :: int and rest
  assume d: "1 \<le> d"
  have m: "scan (d + 1) False False (m @ (125 # rest))
        = map_option (\<lambda>k. length m + k) (scan (d + 1) False False (125 # rest))"
    using assms d unfolding neutral_def by simp
  have c: "scan (d + 1) False False (125 # rest) = map_option Suc (scan d False False rest)"
    using d by (simp add: scan.simps)
  have "scan d False False (123 # (m @ (125 # rest)))
        = map_option Suc (scan (d + 1) False False (m @ (125 # rest)))"
    by (simp add: scan.simps)
  then show "scan d False False ((123 # m @ [125]) @ rest)
        = map_option (\<lambda>k. length (123 # m @ [125]) + k) (scan d False False rest)"
    by (simp add: m c option.map_comp comp_def)
qed

lemma neutral_string:
  assumes "closes_string p"
  shows "neutral (34 # p)"
  unfolding neutral_def
proof (intro allI impI)
  fix d :: int and rest
  have "scan d False False (34 # (p @ rest)) = map_option Suc (scan d True False (p @ rest))"
    by (simp add: scan.simps)
  then show "scan d False False ((34 # p) @ rest)
        = map_option (\<lambda>k. length (34 # p) + k) (scan d False False rest)"
    using assms unfolding closes_string_def by (simp add: option.map_comp comp_def)
qed

lemma scan_top_object:
  assumes "neutral m"
  shows "scan 0 False False (123 # m @ 125 # rest) = Some (length m + 2)"
proof -
  have m: "scan 1 False False (m @ (125 # rest))
        = map_option (\<lambda>k. length m + k) (scan 1 False False (125 # rest))"
    using assms unfolding neutral_def by simp
  have c: "scan 1 False False (125 # rest) = Some 1"
    by (simp add: scan.simps)
  have "scan 0 False False (123 # (m @ (125 # rest)))
        = map_option Suc (scan 1 False False (m @ (125 # rest)))"
    by (simp add: scan.simps)
  then show ?thesis
    by (simp add: m c)
qed

text \<open>Inside a string.\<close>

lemma closes_string_quote: "closes_string [34]"
proof -
  have "map_option Suc x = map_option ((+) (Suc 0)) x" for x :: "nat option"
    by (cases x) auto
  then show ?thesis
    unfolding closes_string_def by (simp add: scan.simps)
qed

lemma closes_string_char:
  assumes "c \<noteq> 34" and "c \<noteq> 92" and "closes_string p"
  shows "closes_string (c # p)"
  unfolding closes_string_def
proof (intro allI)
  fix d :: int and rest
  have "scan d True False (c # (p @ rest)) = map_option Suc (scan d True False (p @ rest))"
    using assms(1,2) by (simp add: scan.simps)
  then show "scan d True False ((c # p) @ rest)
        = map_option (\<lambda>k. length (c # p) + k) (scan d False False rest)"
    using assms(3) unfolding closes_string_def by (simp add: option.map_comp comp_def)
qed

lemma closes_string_chars:
  "\<forall>c \<in> set hs. c \<noteq> 34 \<and> c \<noteq> 92 \<Longrightarrow> closes_string p \<Longrightarrow> closes_string (hs @ p)"
  by (induction hs) (simp_all add: closes_string_char)

lemma closes_string_escape:
  assumes "closes_string p"
  shows "closes_string (92 # e # p)"
  unfolding closes_string_def
proof (intro allI)
  fix d :: int and rest
  have "scan d True False (92 # e # (p @ rest))
        = map_option Suc (map_option Suc (scan d True False (p @ rest)))"
    by (simp add: scan.simps)
  then show "scan d True False ((92 # e # p) @ rest)
        = map_option (\<lambda>k. length (92 # e # p) + k) (scan d False False rest)"
    using assms unfolding closes_string_def by (simp add: option.map_comp comp_def)
qed

lemma hex_value_plain: "hex_value h = Some v \<Longrightarrow> h \<noteq> 34 \<and> h \<noteq> 92"
  by (auto simp: hex_value_def split: if_splits)

lemma parse_escape_shape:
  assumes "parse_escape cs = Some (ch, r)"
  shows "\<exists>e hs. cs = e # hs @ r \<and> (\<forall>c \<in> set hs. c \<noteq> 34 \<and> c \<noteq> 92)"
proof (cases cs)
  case Nil
  with assms show ?thesis by (simp add: parse_escape_def)
next
  case (Cons e t)
  show ?thesis
  proof (cases "e = 117")
    case False
    with assms Cons have "r = t"
      by (auto simp: parse_escape_def split: if_splits)
    then show ?thesis using Cons by (intro exI[of _ e] exI[of _ "[]"]) simp
  next
    case True
    with assms Cons obtain h1 h2 h3 h4 a b c d where
      t: "t = h1 # h2 # h3 # h4 # r"
      and h: "hex_value h1 = Some a" "hex_value h2 = Some b" "hex_value h3 = Some c" "hex_value h4 = Some d"
      by (auto simp: parse_escape_def split: list.splits option.splits)
    have "\<forall>c \<in> set [h1, h2, h3, h4]. c \<noteq> 34 \<and> c \<noteq> 92"
      using h hex_value_plain by auto
    then show ?thesis
      using Cons t by (intro exI[of _ e] exI[of _ "[h1, h2, h3, h4]"]) simp
  qed
qed

lemma parse_string_body_shape:
  "parse_string_body cs = Some (s, r) \<Longrightarrow> \<exists>p. cs = p @ r \<and> closes_string p"
proof (induction cs arbitrary: s r rule: parse_string_body.induct)
  case 1
  then show ?case by simp
next
  case (2 c cs)
  show ?case
  proof (cases "c = 34")
    case True
    with "2.prems" have "r = cs" by simp
    then show ?thesis
      using True closes_string_quote by (intro exI[of _ "[34]"]) simp
  next
    case q: False
    show ?thesis
    proof (cases "c = 92")
      case True
      with q "2.prems" obtain ch r1 s1 where
        e: "parse_escape cs = Some (ch, r1)" and b: "parse_string_body r1 = Some (s1, r)"
        by (auto split: option.splits)
      obtain p where p: "r1 = p @ r" "closes_string p"
        using "2.IH"(1)[OF q True e refl b] by auto
      obtain e' hs where hs: "cs = e' # hs @ r1" "\<forall>c \<in> set hs. c \<noteq> 34 \<and> c \<noteq> 92"
        using parse_escape_shape[OF e] by blast
      have "closes_string (92 # e' # hs @ p)"
        by (intro closes_string_escape closes_string_chars hs(2) p(2))
      then show ?thesis
        using True hs(1) p(1) by (intro exI[of _ "92 # e' # hs @ p"]) simp
    next
      case False
      with q "2.prems" obtain s1 where
        lo: "\<not> c < 32" and b: "parse_string_body cs = Some (s1, r)"
        by (auto split: option.splits if_splits)
      obtain p where p: "cs = p @ r" "closes_string p"
        using "2.IH"(2)[OF q False lo b] by auto
      have "closes_string (c # p)"
        using q False p(2) by (rule closes_string_char)
      then show ?thesis
        using p(1) by (intro exI[of _ "c # p"]) simp
    qed
  qed
qed

lemma neutral_plain: "\<forall>c \<in> set p. plain c \<Longrightarrow> neutral p"
  by (rule neutral_chars) (simp add: plain_def)

lemma one_of_shape:
  assumes "one_of ks cs = (a, r)" and "\<forall>k \<in> set ks. plain k"
  shows "cs = a @ r \<and> (\<forall>c \<in> set a. plain c)"
  using assms by (cases cs) (auto simp: one_of_def split: if_splits)

lemma digit_run_shape:
  assumes "digit_run cs = (a, r)"
  shows "cs = a @ r \<and> (\<forall>c \<in> set a. plain c)"
proof -
  have "a = takeWhile is_digit cs" "r = dropWhile is_digit cs"
    using assms by (simp_all add: digit_run_def)
  moreover have "plain c" if "c \<in> set (takeWhile is_digit cs)" for c
  proof -
    have "is_digit c" using that by (rule set_takeWhileD[THEN conjunct2])
    then show ?thesis by (simp add: is_digit_def plain_def)
  qed
  ultimately show ?thesis by simp
qed

lemma skip_shape: "([] :: jsstring, r) = (a, r') \<Longrightarrow> r = a @ r' \<and> (\<forall>c \<in> set a. plain c)"
  by auto

lemma parse_number_shape:
  assumes "parse_number cs = Some (q, r)"
  shows "\<exists>p. cs = p @ r \<and> (\<forall>c \<in> set p. plain c)"
proof -
  obtain sg r0 where s0: "one_of [45] cs = (sg, r0)" by (cases "one_of [45] cs")
  obtain ip r1 where s1: "(if fst (one_of [48] r0) \<noteq> [] then one_of [48] r0 else digit_run r0) = (ip, r1)"
    by (cases "if fst (one_of [48] r0) \<noteq> [] then one_of [48] r0 else digit_run r0")
  obtain dot r2 where s2: "one_of [46] r1 = (dot, r2)" by (cases "one_of [46] r1")
  obtain fp r3 where s3: "(if dot = [] then ([], r2) else digit_run r2) = (fp, r3)"
    by (cases "if dot = [] then ([], r2) else digit_run r2")
  obtain ex r4 where s4: "one_of [101, 69] r3 = (ex, r4)" by (cases "one_of [101, 69] r3")
  obtain es r5 where s5: "(if ex = [] then ([], r4) else one_of [43, 45] r4) = (es, r5)"
    by (cases "if ex = [] then ([], r4) else one_of [43, 45] r4")
  obtain ep r6 where s6: "(if ex = [] then ([], r5) else digit_run r5) = (ep, r6)"
    by (cases "if ex = [] then ([], r5) else digit_run r5")
  have r: "r = r6"
    using assms by (simp add: parse_number_def s0 s1 s2 s3 s4 s5 s6 Let_def split: if_splits)
  have c0: "cs = sg @ r0 \<and> (\<forall>c \<in> set sg. plain c)"
    by (rule one_of_shape[OF s0]) (simp add: plain_def)
  have c1: "r0 = ip @ r1 \<and> (\<forall>c \<in> set ip. plain c)"
  proof (cases "fst (one_of [48] r0) \<noteq> []")
    case True
    then have "one_of [48] r0 = (ip, r1)" using s1 by simp
    then show ?thesis by (rule one_of_shape) (simp add: plain_def)
  next
    case False
    then have "digit_run r0 = (ip, r1)" using s1 by simp
    then show ?thesis by (rule digit_run_shape)
  qed
  have c2: "r1 = dot @ r2 \<and> (\<forall>c \<in> set dot. plain c)"
    by (rule one_of_shape[OF s2]) (simp add: plain_def)
  have c3: "r2 = fp @ r3 \<and> (\<forall>c \<in> set fp. plain c)"
  proof (cases "dot = []")
    case True
    then show ?thesis using s3 by auto
  next
    case False
    then have "digit_run r2 = (fp, r3)" using s3 by simp
    then show ?thesis by (rule digit_run_shape)
  qed
  have c4: "r3 = ex @ r4 \<and> (\<forall>c \<in> set ex. plain c)"
    by (rule one_of_shape[OF s4]) (simp add: plain_def)
  have c5: "r4 = es @ r5 \<and> (\<forall>c \<in> set es. plain c)"
  proof (cases "ex = []")
    case True
    then show ?thesis using s5 by auto
  next
    case False
    then have "one_of [43, 45] r4 = (es, r5)" using s5 by simp
    then show ?thesis by (rule one_of_shape) (simp add: plain_def)
  qed
  have c6: "r5 = ep @ r6 \<and> (\<forall>c \<in> set ep. plain c)"
  proof (cases "ex = []")
    case True
    then show ?thesis using s6 by auto
  next
    case False
    then have "digit_run r5 = (ep, r6)" using s6 by simp
    then show ?thesis by (rule digit_run_shape)
  qed
  have "cs = (sg @ ip @ dot @ fp @ ex @ es @ ep) @ r"
    using c0 c1 c2 c3 c4 c5 c6 r by simp
  moreover have "\<forall>c \<in> set (sg @ ip @ dot @ fp @ ex @ es @ ep). plain c"
    using c0 c1 c2 c3 c4 c5 c6 by auto
  ultimately show ?thesis by blast
qed

lemma skip_ws_shape:
  "\<exists>w. cs = w @ skip_ws cs \<and> (\<forall>c \<in> set w. plain c)"
proof -
  have "plain c" if "c \<in> set (takeWhile is_json_ws cs)" for c
  proof -
    have "is_json_ws c" using that by (rule set_takeWhileD[THEN conjunct2])
    then show ?thesis by (auto simp: is_json_ws_def plain_def)
  qed
  then show ?thesis
    by (intro exI[of _ "takeWhile is_json_ws cs"]) (simp add: skip_ws_def)
qed

lemma skip_ws_Cons_shape:
  assumes "skip_ws cs = c # t"
  shows "\<exists>w. cs = w @ c # t \<and> neutral w"
  using skip_ws_shape[of cs] assms neutral_plain by auto

lemma skip_ws_hd_shape:
  assumes "skip_ws cs \<noteq> []" and "hd (skip_ws cs) = c"
  shows "\<exists>w. cs = w @ c # tl (skip_ws cs) \<and> neutral w"
proof -
  have "skip_ws cs = c # tl (skip_ws cs)" using assms by (cases "skip_ws cs") auto
  then show ?thesis by (rule skip_ws_Cons_shape)
qed

lemma literal_shape:
  assumes "prefix lit x"
  shows "x = lit @ drop (length lit) x"
  using assms by (auto simp: prefix_def)

lemma neutral_true: "neutral (js ''true'')"
  by (rule neutral_plain) (simp add: js_def plain_def)

lemma neutral_false: "neutral (js ''false'')"
  by (rule neutral_plain) (simp add: js_def plain_def)

lemma neutral_null: "neutral (js ''null'')"
  by (rule neutral_plain) (simp add: js_def plain_def)

lemma length_lits: "length (js ''true'') = 4" "length (js ''false'') = 5" "length (js ''null'') = 4"
  by (simp_all add: js_def)

subsection \<open>What the parser accepts\<close>

lemma parse_value_cases:
  assumes "parse_value (Suc n) cs = Some (v, r)"
  obtains
    (empty_object) t where "skip_ws cs = 123 # t" "skip_ws t \<noteq> []" "hd (skip_ws t) = 125"
        "r = tl (skip_ws t)"
  | (object) t ms where "skip_ws cs = 123 # t" "parse_members n t = Some (ms, r)"
  | (empty_array) t where "skip_ws cs = 91 # t" "skip_ws t \<noteq> []" "hd (skip_ws t) = 93"
        "r = tl (skip_ws t)"
  | (array) t vs where "skip_ws cs = 91 # t" "parse_elements n t = Some (vs, r)"
  | (string) t s where "skip_ws cs = 34 # t" "parse_string_body t = Some (s, r)"
  | (number) q where "parse_number (skip_ws cs) = Some (q, r)"
  | (literal) lit where "lit = js ''true'' \<or> lit = js ''false'' \<or> lit = js ''null''"
        "prefix lit (skip_ws cs)" "r = drop (length lit) (skip_ws cs)"
proof (cases "skip_ws cs")
  case Nil
  with assms show ?thesis by simp
next
  case (Cons c t)
  consider "c = 123" | "c \<noteq> 123" "c = 91" | "c \<noteq> 123" "c \<noteq> 91" "c = 34"
    | "c \<noteq> 123" "c \<noteq> 91" "c \<noteq> 34" "c = 45 \<or> is_digit c"
    | "c \<noteq> 123" "c \<noteq> 91" "c \<noteq> 34" "\<not> (c = 45 \<or> is_digit c)"
    by blast
  then show ?thesis
  proof cases
    case 1
    show ?thesis
    proof (cases "skip_ws t \<noteq> [] \<and> hd (skip_ws t) = 125")
      case True
      with assms Cons 1 have "r = tl (skip_ws t)" by simp
      with True Cons 1 show ?thesis by (intro empty_object[of t]) simp_all
    next
      case False
      with assms Cons 1 obtain ms where "parse_members n t = Some (ms, r)"
        by (auto split: option.splits)
      with Cons 1 show ?thesis by (intro object[of t ms]) simp_all
    qed
  next
    case 2
    show ?thesis
    proof (cases "skip_ws t \<noteq> [] \<and> hd (skip_ws t) = 93")
      case True
      with assms Cons 2 have "r = tl (skip_ws t)" by simp
      with True Cons 2 show ?thesis by (intro empty_array[of t]) simp_all
    next
      case False
      with assms Cons 2 obtain vs where "parse_elements n t = Some (vs, r)"
        by (auto split: option.splits)
      with Cons 2 show ?thesis by (intro array[of t vs]) simp_all
    qed
  next
    case 3
    with assms Cons obtain s where "parse_string_body t = Some (s, r)"
      by (auto split: option.splits)
    with Cons 3 show ?thesis by (intro string[of t s]) simp_all
  next
    case 4
    with assms Cons obtain q where "parse_number (c # t) = Some (q, r)"
      by (auto split: option.splits)
    with Cons show ?thesis by (intro number[of q]) simp
  next
    case 5
    with assms Cons have
      "(prefix (js ''true'') (c # t) \<and> r = drop 4 (c # t))
       \<or> (prefix (js ''false'') (c # t) \<and> r = drop 5 (c # t))
       \<or> (prefix (js ''null'') (c # t) \<and> r = drop 4 (c # t))"
      by (simp split: if_splits)
    then show ?thesis
      using Cons length_lits
      by (elim disjE conjE)
         (rule literal[of "js ''true''"], simp_all,
          rule literal[of "js ''false''"], simp_all,
          rule literal[of "js ''null''"], simp_all)
  qed
qed

lemma parse_elements_cases:
  assumes "parse_elements (Suc n) cs = Some (vs, r)"
  obtains
    (more) v r1 t vs' where "parse_value n cs = Some (v, r1)" "skip_ws r1 = 44 # t"
        "parse_elements n t = Some (vs', r)"
  | (last) v r1 where "parse_value n cs = Some (v, r1)" "skip_ws r1 = 93 # r"
proof -
  from assms obtain v r1 where v: "parse_value n cs = Some (v, r1)"
    by (auto split: option.splits)
  from assms v obtain c t where c: "skip_ws r1 = c # t"
    by (cases "skip_ws r1") auto
  show ?thesis
  proof (cases "c = 44")
    case True
    with assms v c obtain vs' where "parse_elements n t = Some (vs', r)"
      by (auto split: option.splits)
    with v c True show ?thesis by (intro more[of v r1 t vs']) simp_all
  next
    case False
    with assms v c have "c = 93" "r = t"
      by (auto split: if_splits)
    with v c show ?thesis by (intro last[of v r1]) simp_all
  qed
qed

lemma parse_members_cases:
  assumes "parse_members (Suc n) cs = Some (ms, r)"
  obtains
    (more) t k r1 r2 v r3 r4 ms' where "skip_ws cs = 34 # t" "parse_string_body t = Some (k, r1)"
        "skip_ws r1 = 58 # r2" "parse_value n r2 = Some (v, r3)" "skip_ws r3 = 44 # r4"
        "parse_members n r4 = Some (ms', r)"
  | (last) t k r1 r2 v r3 where "skip_ws cs = 34 # t" "parse_string_body t = Some (k, r1)"
        "skip_ws r1 = 58 # r2" "parse_value n r2 = Some (v, r3)" "skip_ws r3 = 125 # r"
proof -
  from assms obtain q t where q: "skip_ws cs = q # t"
    by (cases "skip_ws cs") auto
  from assms q have q34: "q = 34" by (auto split: if_splits)
  from assms q q34 obtain k r1 where k: "parse_string_body t = Some (k, r1)"
    by (auto split: option.splits)
  from assms q q34 k obtain c r2 where c: "skip_ws r1 = c # r2"
    by (cases "skip_ws r1") auto
  from assms q q34 k c have c58: "c = 58" by (auto split: if_splits)
  from assms q q34 k c c58 obtain v r3 where v: "parse_value n r2 = Some (v, r3)"
    by (auto split: option.splits)
  from assms q q34 k c c58 v obtain d r4 where d: "skip_ws r3 = d # r4"
    by (cases "skip_ws r3") auto
  show ?thesis
  proof (cases "d = 44")
    case True
    with assms q q34 k c c58 v d obtain ms' where "parse_members n r4 = Some (ms', r)"
      by (auto split: option.splits)
    with q q34 k c c58 v d True show ?thesis
      by (intro more[of t k r1 r2 v r3 r4 ms']) simp_all
  next
    case False
    with assms q q34 k c c58 v d have "d = 125" "r = r4"
      by (auto split: if_splits)
    with q q34 k c c58 v d show ?thesis
      by (intro last[of t k r1 r2 v r3]) simp_all
  qed
qed

lemma neutral_bracket: "neutral w \<Longrightarrow> neutral (91 # w @ [93])"
  using neutral_Cons[of 91 "w @ [93]"] neutral_append[of w "[93]"] neutral_single[of 93]
  by simp

lemma parser_shapes:
  "(\<forall>cs v r. parse_value n cs = Some (v, r) \<longrightarrow> (\<exists>p. cs = p @ r \<and> neutral p))
   \<and> (\<forall>cs vs r. parse_elements n cs = Some (vs, r) \<longrightarrow> (\<exists>p. cs = p @ r \<and> neutral p))
   \<and> (\<forall>cs ms r. parse_members n cs = Some (ms, r) \<longrightarrow> (\<exists>m. cs = m @ 125 # r \<and> neutral m))"
proof (induction n)
  case 0
  show ?case by simp
next
  case (Suc n)
  then have IHv: "\<And>cs v r. parse_value n cs = Some (v, r) \<Longrightarrow> \<exists>p. cs = p @ r \<and> neutral p"
    and IHe: "\<And>cs vs r. parse_elements n cs = Some (vs, r) \<Longrightarrow> \<exists>p. cs = p @ r \<and> neutral p"
    and IHm: "\<And>cs ms r. parse_members n cs = Some (ms, r) \<Longrightarrow> \<exists>m. cs = m @ 125 # r \<and> neutral m"
    by blast+
  have v: "\<exists>p. cs = p @ r \<and> neutral p" if a: "parse_value (Suc n) cs = Some (v, r)" for cs v r
  proof -
    obtain w where w: "cs = w @ skip_ws cs" "neutral w"
      using skip_ws_shape[of cs] neutral_plain by blast
    have "\<exists>p. skip_ws cs = p @ r \<and> neutral p"
      using a
    proof (cases rule: parse_value_cases)
      case (empty_object t)
      obtain w2 where "t = w2 @ 125 # r" "neutral w2"
        using skip_ws_hd_shape[OF empty_object(2,3)] empty_object(4) by auto
      then show ?thesis
        using empty_object(1) neutral_object[of w2]
        by (intro exI[of _ "123 # w2 @ [125]"]) simp
    next
      case (object t ms)
      obtain m where "t = m @ 125 # r" "neutral m"
        using IHm[OF object(2)] by auto
      then show ?thesis
        using object(1) neutral_object[of m]
        by (intro exI[of _ "123 # m @ [125]"]) simp
    next
      case (empty_array t)
      obtain w2 where "t = w2 @ 93 # r" "neutral w2"
        using skip_ws_hd_shape[OF empty_array(2,3)] empty_array(4) by auto
      then show ?thesis
        using empty_array(1) neutral_bracket[of w2]
        by (intro exI[of _ "91 # w2 @ [93]"]) simp
    next
      case (array t vs)
      obtain p where "t = p @ r" "neutral p"
        using IHe[OF array(2)] by auto
      then show ?thesis
        using array(1) neutral_Cons[of 91 p]
        by (intro exI[of _ "91 # p"]) simp
    next
      case (string t s)
      obtain p where "t = p @ r" "closes_string p"
        using parse_string_body_shape[OF string(2)] by auto
      then show ?thesis
        using string(1) neutral_string[of p]
        by (intro exI[of _ "34 # p"]) simp
    next
      case (number q)
      then show ?thesis
        using parse_number_shape[OF number] neutral_plain by blast
    next
      case (literal lit)
      have "neutral lit"
        using literal(1) neutral_true neutral_false neutral_null by auto
      then show ?thesis
        using literal_shape[OF literal(2)] literal(3)
        by (intro exI[of _ lit]) simp
    qed
    then obtain p where "skip_ws cs = p @ r" "neutral p" by auto
    then show ?thesis
      using w neutral_append[of w p]
      by (intro exI[of _ "w @ p"]) (metis append.assoc)
  qed
  have e: "\<exists>p. cs = p @ r \<and> neutral p" if a: "parse_elements (Suc n) cs = Some (vs, r)" for cs vs r
    using a
  proof (cases rule: parse_elements_cases)
    case (more v r1 t vs')
    obtain p1 where p1: "cs = p1 @ r1" "neutral p1" using IHv[OF more(1)] by auto
    obtain w where w: "r1 = w @ 44 # t" "neutral w" using skip_ws_Cons_shape[OF more(2)] by auto
    obtain p2 where p2: "t = p2 @ r" "neutral p2" using IHe[OF more(3)] by auto
    have "neutral (p1 @ w @ 44 # p2)"
      by (intro neutral_append neutral_Cons p1(2) w(2) p2(2)) simp_all
    then show ?thesis
      using p1(1) w(1) p2(1) by (intro exI[of _ "p1 @ w @ 44 # p2"]) simp
  next
    case (last v r1)
    obtain p1 where p1: "cs = p1 @ r1" "neutral p1" using IHv[OF last(1)] by auto
    obtain w where w: "r1 = w @ 93 # r" "neutral w" using skip_ws_Cons_shape[OF last(2)] by auto
    have "neutral (p1 @ w @ [93])"
      by (intro neutral_append neutral_single p1(2) w(2)) simp_all
    then show ?thesis
      using p1(1) w(1) by (intro exI[of _ "p1 @ w @ [93]"]) simp
  qed
  have m: "\<exists>m. cs = m @ 125 # r \<and> neutral m" if a: "parse_members (Suc n) cs = Some (ms, r)" for cs ms r
    using a
  proof (cases rule: parse_members_cases)
    case (more t k r1 r2 v r3 r4 ms')
    obtain w where w: "cs = w @ 34 # t" "neutral w" using skip_ws_Cons_shape[OF more(1)] by auto
    obtain pk where pk: "t = pk @ r1" "closes_string pk"
      using parse_string_body_shape[OF more(2)] by auto
    obtain w1 where w1: "r1 = w1 @ 58 # r2" "neutral w1" using skip_ws_Cons_shape[OF more(3)] by auto
    obtain pv where pv: "r2 = pv @ r3" "neutral pv" using IHv[OF more(4)] by auto
    obtain w3 where w3: "r3 = w3 @ 44 # r4" "neutral w3" using skip_ws_Cons_shape[OF more(5)] by auto
    obtain m' where m': "r4 = m' @ 125 # r" "neutral m'" using IHm[OF more(6)] by auto
    have "neutral (w @ (34 # pk) @ w1 @ 58 # pv @ w3 @ 44 # m')"
      by (intro neutral_append neutral_Cons neutral_string w(2) pk(2) w1(2) pv(2) w3(2) m'(2))
         simp_all
    then show ?thesis
      using w(1) pk(1) w1(1) pv(1) w3(1) m'(1)
      by (intro exI[of _ "w @ (34 # pk) @ w1 @ 58 # pv @ w3 @ 44 # m'"]) simp
  next
    case (last t k r1 r2 v r3)
    obtain w where w: "cs = w @ 34 # t" "neutral w" using skip_ws_Cons_shape[OF last(1)] by auto
    obtain pk where pk: "t = pk @ r1" "closes_string pk"
      using parse_string_body_shape[OF last(2)] by auto
    obtain w1 where w1: "r1 = w1 @ 58 # r2" "neutral w1" using skip_ws_Cons_shape[OF last(3)] by auto
    obtain pv where pv: "r2 = pv @ r3" "neutral pv" using IHv[OF last(4)] by auto
    obtain w3 where w3: "r3 = w3 @ 125 # r" "neutral w3" using skip_ws_Cons_shape[OF last(5)] by auto
    have "neutral (w @ (34 # pk) @ w1 @ 58 # pv @ w3)"
      by (intro neutral_append neutral_Cons neutral_string w(2) pk(2) w1(2) pv(2) w3(2))
         simp_all
    then show ?thesis
      using w(1) pk(1) w1(1) pv(1) w3(1)
      by (intro exI[of _ "w @ (34 # pk) @ w1 @ 58 # pv @ w3"]) simp
  qed
  show ?case using v e m by blast
qed

text \<open>A text that \<open>JSON.parse\<close> accepts and that runs from a \<open>{\<close> to a \<open>}\<close>.\<close>

lemma object_text_shape:
  assumes "JSON_parse s = Some v" and "s \<noteq> []" and "hd s = 123" and "last s = 125"
  shows "\<exists>m. s = 123 # m @ [125] \<and> neutral m"
proof -
  obtain rest where p: "parse_value (2 * length s + 1) s = Some (v, rest)" and ws: "skip_ws rest = []"
    using assms(1) by (auto simp: JSON_parse_def split: option.splits prod.splits if_splits)
  obtain t where t: "s = 123 # t" using assms(2,3) by (cases s) auto
  have sk: "skip_ws s = 123 # t"
    by (simp add: t skip_ws_def is_json_ws_def)
  have p': "parse_value (Suc (2 * length s)) s = Some (v, rest)" using p by simp
  have "\<exists>m. t = m @ 125 # rest \<and> neutral m"
    using p'
  proof (cases rule: parse_value_cases)
    case (empty_object t')
    then have "t' = t" using sk by simp
    then show ?thesis
      using skip_ws_hd_shape[OF empty_object(2,3)] empty_object(4) by auto
  next
    case (object t' ms)
    then have "t' = t" using sk by simp
    then show ?thesis
      using parser_shapes[of "2 * length s"] object(2) by blast
  next
    case (number q)
    have "parse_number (123 # t) = None"
      by (simp add: parse_number_def one_of_def digit_run_def is_digit_def)
    then show ?thesis using number sk by simp
  next
    case (literal lit)
    then show ?thesis using sk by (auto simp: js_def)
  qed (use sk in simp_all)
  then obtain m where m: "t = m @ 125 # rest" "neutral m" by auto
  have "rest = []"
  proof (rule ccontr)
    assume ne: "rest \<noteq> []"
    then have "last s = last rest" using t m(1) by simp
    moreover have "is_json_ws (last rest)"
      using ws ne unfolding skip_ws_def
      by (metis dropWhile_eq_Nil_conv last_in_set)
    ultimately show False using assms(4) by (simp add: is_json_ws_def)
  qed
  then show ?thesis using t m by simp
qed

lemma findJSONObject_embedded:
  assumes "JSON_parse s = Some v" and "s \<noteq> []" and "hd s = 123" and "last s = 125"
      and "123 \<notin> set p"
  shows "findJSONObject (p @ s @ q) = Some s"
proof -
  obtain m where m: "s = 123 # m @ [125]" "neutral m"
    using object_text_shape[OF assms(1-4)] by auto
  have d: "dropWhile (\<lambda>c. c \<noteq> 123) (p @ s @ q) = 123 # m @ 125 # q"
    using assms(5) m(1) by (simp add: dropWhile_append)
  have sc: "scan 0 False False (123 # m @ 125 # q) = Some (length m + 2)"
    by (rule scan_top_object[OF m(2)])
  have "findJSONObject (p @ s @ q) = Some (take (length m + 2) (123 # m @ 125 # q))"
    unfolding findJSONObject_def d by (simp add: sc)
  then show ?thesis
    by (simp add: m(1))
qed

subsection \<open>The cleaning keeps the first object in place\<close>

lemma opens_with_front:
  assumes "123 \<notin> set t"
  shows "opens_with s (t @ y) \<longleftrightarrow> opens_with s y"
proof -
  have "dropWhile (\<lambda>c. c \<noteq> 123) (t @ y) = dropWhile (\<lambda>c. c \<noteq> 123) y"
    using assms by (intro dropWhile_append2) auto
  then show ?thesis by (simp add: opens_with_def)
qed

lemma opens_with_decompose:
  assumes "opens_with s x"
  shows "\<exists>p z. x = p @ s @ z \<and> 123 \<notin> set p"
proof -
  let ?p = "takeWhile (\<lambda>c. c \<noteq> 123) x"
  obtain z where "dropWhile (\<lambda>c. c \<noteq> 123) x = s @ z"
    using assms by (auto simp: opens_with_def prefix_def)
  then have "x = ?p @ s @ z"
    using takeWhile_dropWhile_id[of "\<lambda>c. c \<noteq> 123" x] by simp
  moreover have "123 \<notin> set ?p"
    by (auto dest: set_takeWhileD)
  ultimately show ?thesis by blast
qed

lemma opens_with_compose:
  assumes "x = p @ s @ z" and "123 \<notin> set p" and "s \<noteq> []" and "hd s = 123"
  shows "opens_with s x"
proof -
  have "dropWhile (\<lambda>c. c \<noteq> 123) (p @ (s @ z)) = dropWhile (\<lambda>c. c \<noteq> 123) (s @ z)"
    using assms(2) by (intro dropWhile_append2) auto
  also have "\<dots> = s @ z"
    using assms(3,4) by (cases s) auto
  finally show ?thesis by (simp add: opens_with_def assms(1))
qed

lemma opens_with_back:
  assumes "opens_with s (y @ t)" and "125 \<notin> set t"
      and "s \<noteq> []" and "hd s = 123" and "last s = 125"
  shows "opens_with s y"
proof -
  obtain p z where x: "y @ t = p @ s @ z" and p: "123 \<notin> set p"
    using opens_with_decompose[OF assms(1)] by blast
  from x have "(p @ s) @ z = y @ t" by simp
  then have "\<exists>us. p @ s = y @ us \<and> us @ z = t \<or> (p @ s) @ us = y \<and> z = us @ t"
    by (rule iffD1[OF append_eq_append_conv2])
  then obtain us where
    "(p @ s = y @ us \<and> us @ z = t) \<or> (p @ s @ us = y \<and> z = us @ t)"
    by auto
  then have "\<exists>z'. y = p @ s @ z'"
  proof
    assume a: "p @ s = y @ us \<and> us @ z = t"
    have "us = []"
    proof (rule ccontr)
      assume ne: "us \<noteq> []"
      have "last (p @ s) = last (y @ us)" using a by simp
      then have "last us = 125" using ne assms(3,5) by simp
      then have "125 \<in> set us" using ne last_in_set by metis
      then show False using a assms(2) by auto
    qed
    then show ?thesis using a by (intro exI[of _ "[]"]) simp
  next
    assume "p @ s @ us = y \<and> z = us @ t"
    then show ?thesis by (intro exI[of _ us]) simp
  qed
  then obtain z' where "y = p @ s @ z'" by blast
  then show ?thesis
    using p assms(3,4) by (rule opens_with_compose)
qed

lemma not_space_brace: "\<not> is_space 123" "\<not> is_space 125"
  by (simp_all add: is_space_def)

lemma opens_with_dropWhile_space:
  assumes "opens_with s x"
  shows "opens_with s (dropWhile is_space x)"
proof -
  have "123 \<notin> set (takeWhile is_space x)"
    using not_space_brace(1) by (auto dest: set_takeWhileD)
  then have "opens_with s (takeWhile is_space x @ dropWhile is_space x)
             \<longleftrightarrow> opens_with s (dropWhile is_space x)"
    by (rule opens_with_front)
  then show ?thesis using assms by simp
qed

lemma rtrim_split:
  "x = rev (dropWhile P (rev x)) @ rev (takeWhile P (rev x))"
proof -
  have "rev x = takeWhile P (rev x) @ dropWhile P (rev x)" by simp
  then have "rev (rev x) = rev (takeWhile P (rev x) @ dropWhile P (rev x))" by simp
  then show ?thesis by (simp del: takeWhile_dropWhile_id)
qed

lemma opens_with_rtrim:
  assumes "opens_with s x" and "s \<noteq> []" and "hd s = 123" and "last s = 125"
  shows "opens_with s (rev (dropWhile is_space (rev x)))"
proof -
  have b: "125 \<notin> set (rev (takeWhile is_space (rev x)))"
    using not_space_brace(2) by (auto dest: set_takeWhileD)
  have a: "opens_with s (rev (dropWhile is_space (rev x)) @ rev (takeWhile is_space (rev x)))"
    using assms(1) rtrim_split[of x is_space] by simp
  show ?thesis
    by (rule opens_with_back[OF a b assms(2-4)])
qed

lemma opens_with_trim:
  assumes "opens_with s x" and "s \<noteq> []" and "hd s = 123" and "last s = 125"
  shows "opens_with s (trim x)"
  unfolding trim_def
  using opens_with_rtrim[OF opens_with_dropWhile_space[OF assms(1)] assms(2-4)] .

lemma fence_body_split:
  assumes "fence_body x = Some b"
  shows "x = [96, 96, 96] @ b @ [96, 96, 96]"
proof -
  from assms have len: "6 \<le> length x" and o: "take 3 x = [96, 96, 96]"
    and c: "drop (length x - 3) x = [96, 96, 96]" and b: "b = take (length x - 6) (drop 3 x)"
    by (auto simp: fence_body_def split: if_splits)
  have "drop (length x - 6) (drop 3 x) = drop (length x - 3) x"
    using len by simp
  then have "drop 3 x = b @ [96, 96, 96]"
    using append_take_drop_id[of "length x - 6" "drop 3 x"] b c by simp
  then show ?thesis
    using append_take_drop_id[of 3 x] o by simp
qed

lemma opens_with_fence_body:
  assumes "opens_with s x" and "fence_body x = Some b"
      and "s \<noteq> []" and "hd s = 123" and "last s = 125"
  shows "opens_with s b"
proof -
  have "opens_with s ([96, 96, 96] @ (b @ [96, 96, 96]))"
    using assms(1) fence_body_split[OF assms(2)] by simp
  then have "opens_with s (b @ [96, 96, 96])"
    by (subst (asm) opens_with_front) simp_all
  moreover have "125 \<notin> set [96, 96, 96 :: nat]" by simp
  ultimately show ?thesis
    using assms(3-5) by (rule opens_with_back)
qed

lemma opens_with_drop_prefix:
  assumes "opens_with s x" and "prefix t x" and "123 \<notin> set t"
  shows "opens_with s (drop (length t) x)"
proof -
  obtain y where "x = t @ y" using assms(2) by (auto simp: prefix_def)
  then show ?thesis
    using assms(1,3) opens_with_front[of t s y] by simp
qed

lemma opens_with_strip_tag:
  assumes "opens_with s x"
  shows "opens_with s (strip_tag x)"
proof -
  have l: "length (js ''json'') = 4" "length (js ''javascript'') = 10" "length (js ''js'') = 2"
    by (simp_all add: js_def)
  have n: "123 \<notin> set (js ''json'')" "123 \<notin> set (js ''javascript'')" "123 \<notin> set (js ''js'')"
    by (simp_all add: js_def)
  show ?thesis
    using assms opens_with_drop_prefix[OF assms _ n(1)] opens_with_drop_prefix[OF assms _ n(2)]
      opens_with_drop_prefix[OF assms _ n(3)] l
    by (auto simp: strip_tag_def)
qed

lemma opens_with_fence_group:
  assumes "opens_with s x" and "s \<noteq> []" and "hd s = 123" and "last s = 125"
  shows "opens_with s (fence_group x)"
proof -
  let ?g = "dropWhile is_space x"
  have g: "opens_with s ?g" using assms(1) by (rule opens_with_dropWhile_space)
  show ?thesis
  proof (cases "?g \<noteq> [] \<and> last ?g = 10")
    case True
    then have "opens_with s (butlast ?g @ [10])"
      using g append_butlast_last_id[of ?g] by simp
    moreover have "125 \<notin> set [10 :: nat]" by simp
    ultimately have "opens_with s (butlast ?g)"
      using assms(2-4) by (rule opens_with_back)
    then show ?thesis using True by (simp add: fence_group_def)
  next
    case False
    then show ?thesis using g by (auto simp: fence_group_def Let_def)
  qed
qed

lemma opens_with_clean_text:
  assumes "opens_with s x" and "s \<noteq> []" and "hd s = 123" and "last s = 125"
  shows "opens_with s (clean_text x)"
proof -
  note A = assms(2-4)
  have t: "opens_with s (trim x)" using assms(1) A by (rule opens_with_trim)
  show ?thesis
  proof (cases "fence_body (trim x)")
    case None
    then show ?thesis
      using t by (simp add: clean_text_def Let_def tagged_fence_def plain_fence_def)
  next
    case (Some b)
    have b: "opens_with s b" using t Some A by (rule opens_with_fence_body)
    have "opens_with s (strip_tag b)" using b by (rule opens_with_strip_tag)
    then have "opens_with s (fence_group (strip_tag b))" using A by (rule opens_with_fence_group)
    then have "opens_with s (trim (fence_group (strip_tag b)))" using A by (rule opens_with_trim)
    then show ?thesis
      using Some by (simp add: clean_text_def Let_def tagged_fence_def plain_fence_def)
  qed
qed

lemma findJSONObject_opens_with:
  assumes "JSON_parse s = Some v" and "s \<noteq> []" and "hd s = 123" and "last s = 125"
      and "opens_with s x"
  shows "findJSONObject x = Some s"
proof -
  obtain p z where "x = p @ s @ z" "123 \<notin> set p"
    using opens_with_decompose[OF assms(5)] by blast
  then show ?thesis
    using findJSONObject_embedded[OF assms(1-4)] by simp
qed

lemma trim_id:
  assumes "x \<noteq> []" and "\<not> is_space (hd x)" and "\<not> is_space (last x)"
  shows "trim x = x"
proof -
  have a: "dropWhile is_space x = x" using assms(1,2) by (cases x) auto
  have "rev x \<noteq> []" "\<not> is_space (hd (rev x))" using assms(1,3) by (simp_all add: hd_rev)
  then have "dropWhile is_space (rev x) = rev x" by (cases "rev x") auto
  then show ?thesis by (simp add: trim_def a)
qed

lemma strip_tag_fence:
  assumes "tag \<in> set fence_tags"
  shows "strip_tag (tag @ 10 # y) = 10 # y"
  using assms by (auto simp: fence_tags_def strip_tag_def js_def)

lemma clean_text_fenced:
  assumes "tag \<in> set fence_tags" and "s \<noteq> []" and "hd s = 123" and "last s = 125"
  shows "clean_text (fenced tag s) = s"
proof -
  let ?x = "fenced tag s"
  have s: "\<not> is_space (hd s)" "\<not> is_space (last s)"
    using assms(3,4) not_space_brace by simp_all
  have q: "\<not> is_space 96" "is_space 10" by (simp_all add: is_space_def)
  have tx: "trim ?x = ?x"
    by (rule trim_id) (simp_all add: fenced_def q)
  have len: "length ?x = length tag + length s + 8" by (simp add: fenced_def)
  have fb: "fence_body ?x = Some (tag @ 10 # s @ [10])"
    by (simp add: fence_body_def fenced_def)
  have st: "strip_tag (tag @ 10 # s @ [10]) = 10 # s @ [10]"
    using assms(1) by (rule strip_tag_fence)
  have d: "dropWhile is_space (10 # s @ [10]) = s @ [10]"
    using assms(2) s(1) q(2) by (cases s) auto
  have fg: "fence_group (10 # s @ [10]) = s"
    by (simp only: fence_group_def Let_def d) simp
  have ts: "trim s = s" using assms(2) s by (rule trim_id)
  show ?thesis
    by (simp add: clean_text_def tx tagged_fence_def fb st fg ts)
qed

text \<open>
  C4, as amended. Let \<open>s\<close> be a text that \<open>JSON.parse\<close> accepts and that runs from a
  \<open>{\<close> to a \<open>}\<close>, the serialization of a well-formed object \<open>obj\<close>. Embedded in prose
  whose part before \<open>s\<close> has no \<open>{\<close>, whatever follows \<open>s\<close>, \<open>extractJSON\<close> returns
  \<open>obj\<close>, unless the whole cleaned input is itself accepted by \<open>JSON.parse\<close>, and then it
  returns the value of the whole input (for \<open>[{"a":1}]\<close>, the array). Wrapped in a
  fence on lines of its own, with no tag or with the tag \<open>json\<close>, \<open>javascript\<close> or \<open>js\<close>,
  \<open>extractJSON\<close> returns \<open>obj\<close>.
\<close>

theorem extractJSON_embedded:
  assumes "JSON_parse s = Some obj" and "s \<noteq> []" and "hd s = 123" and "last s = 125"
  shows "(123 \<notin> set pre \<longrightarrow>
            extractJSON (pre @ s @ post)
              = (case JSON_parse (clean_text (pre @ s @ post)) of Some v \<Rightarrow> v | None \<Rightarrow> obj))
       \<and> (tag \<in> set fence_tags \<longrightarrow> extractJSON (fenced tag s) = obj)"
proof (intro conjI impI)
  assume pre: "123 \<notin> set pre"
  have "opens_with s (pre @ s @ post)"
    by (rule opens_with_compose[OF refl pre assms(2,3)])
  then have "opens_with s (clean_text (pre @ s @ post))"
    using assms(2-4) by (rule opens_with_clean_text)
  then have f: "findJSONObject (clean_text (pre @ s @ post)) = Some s"
    by (rule findJSONObject_opens_with[OF assms])
  show "extractJSON (pre @ s @ post)
      = (case JSON_parse (clean_text (pre @ s @ post)) of Some v \<Rightarrow> v | None \<Rightarrow> obj)"
    using assms(1,2) by (simp add: extractJSON_def Let_def f split: option.splits)
next
  assume "tag \<in> set fence_tags"
  then have "clean_text (fenced tag s) = s"
    using assms(2-4) by (rule clean_text_fenced)
  then show "extractJSON (fenced tag s) = obj"
    using assms(1) by (simp add: extractJSON_def Let_def fenced_def)
qed

theorem extractJSON_embedded_witness:
  "JSON_parse (js ''{\"a\":\"}{'' @ [92, 34] @ js ''\",\"b\":[1,{\"c\":null}]}'')
     = Some (JObj [(js ''a'', JStr (js ''}{\"'')), (js ''b'', JArr [JNum 1, JObj [(js ''c'', JNull)]])])
   \<and> extractJSON (js ''Sure! Here: '' @ js ''{\"a\":\"}{'' @ [92, 34] @ js ''\",\"b\":[1,{\"c\":null}]}''
                   @ js '' -- done {ok}'')
       = JObj [(js ''a'', JStr (js ''}{\"'')), (js ''b'', JArr [JNum 1, JObj [(js ''c'', JNull)]])]
   \<and> extractJSON (fenced (js ''json'') (js ''{\"a\":\"}{'' @ [92, 34] @ js ''\",\"b\":[1,{\"c\":null}]}''))
       = JObj [(js ''a'', JStr (js ''}{\"'')), (js ''b'', JArr [JNum 1, JObj [(js ''c'', JNull)]])]"
proof -
  let ?s = "js ''{\"a\":\"}{'' @ [92, 34] @ js ''\",\"b\":[1,{\"c\":null}]}''"
  let ?obj = "JObj [(js ''a'', JStr (js ''}{\"'')), (js ''b'', JArr [JNum 1, JObj [(js ''c'', JNull)]])]"
  have p: "JSON_parse ?s = Some ?obj"
    by code_simp
  have h: "?s \<noteq> []" "hd ?s = 123" "last ?s = 125"
    by (simp_all add: js_def)
  have n: "123 \<notin> set (js ''Sure! Here: '')"
    by (simp add: js_def)
  have t: "js ''json'' \<in> set fence_tags"
    by (simp add: fence_tags_def)
  have c: "JSON_parse (clean_text (js ''Sure! Here: '' @ ?s @ js '' -- done {ok}'')) = None"
    by code_simp
  show ?thesis
    using extractJSON_embedded[OF p h, of "js ''Sure! Here: ''" "js '' -- done {ok}''" "js ''json''"]
      p n t c
    by simp
qed

text \<open>
  C4 as stated fails when the prose has a brace of its own: in \<open>{x} {"a":1}\<close> the
  object \<open>{"a":1}\<close> is well-formed and embedded in prose, and \<open>extractJSON\<close> returns
  \<open>null\<close>: the bracket scan stops at \<open>{x}\<close>, and the search in prose takes the text from
  the first \<open>{\<close> to the last \<open>}\<close>.
\<close>

theorem prose_with_braces_counterexample:
  "JSON_parse (js ''{\"a\":1}'') = Some (JObj [(js ''a'', JNum 1)])
   \<and> extractJSON (js ''{x} {\"a\":1}'') = JNull"
  by code_simp

section \<open>Properties of the research call and of the row worker\<close>

lemma llmCompletion_outage:
  assumes "all_throw P"
  shows "\<exists>m. llmCompletion P messages = Inl (Error m)"
proof -
  obtain t e where o: "openrouterCompletion P messages = Settles t (Inl (Error e))"
    using assms unfolding all_throw_def by blast
  obtain g where g: "geminiCompletion P messages = Inl (Error g)"
    using assms unfolding all_throw_def by blast
  have "\<exists>m. withTimeout (openrouterCompletion P messages) TIMEOUT_MS (js ''OpenRouter timeout'')
          = Inl (Error m)"
    by (cases "t < TIMEOUT_MS") (simp_all add: o withTimeout_def)
  then show ?thesis
    by (auto simp: llmCompletion_def g)
qed

lemma request_response_outage:
  assumes "all_throw P"
  shows "\<exists>m. request_response P query messages k lastResponse = Inl (Error m)"
proof (cases "k = 1")
  case True
  then show ?thesis
    using llmCompletion_outage[OF assms, of messages] by (auto simp: request_response_def)
next
  case False
  obtain m where
    "geminiSimpleCompletion P (k - 1) (createRepairPrompt query lastResponse) = Inl (Error m)"
    using assms unfolding all_throw_def by blast
  then show ?thesis
    using False by (simp add: request_response_def)
qed

lemma research_loop_end:
  "\<not> attempts < MAX_REPAIR_ATTEMPTS + 1 \<Longrightarrow>
   research_loop numstr P query messages attempts lastResponse lastProvider
     = Inr \<lparr>res_result = fallback_result, res_provider = lastProvider, res_attempts = attempts\<rparr>"
  by (subst research_loop.simps) simp

lemma research_loop_throw:
  "attempts < MAX_REPAIR_ATTEMPTS + 1 \<Longrightarrow>
   request_response P query messages (attempts + 1) lastResponse = Inl (Error m) \<Longrightarrow>
   research_loop numstr P query messages attempts lastResponse lastProvider
     = research_loop numstr P query messages (attempts + 1) lastResponse lastProvider"
  by (subst research_loop.simps) simp

lemma research_loop_outage:
  assumes "all_throw P"
  shows "research_loop numstr P query messages 0 lastResponse lastProvider
     = Inr \<lparr>res_result = fallback_result, res_provider = lastProvider, res_attempts = 3\<rparr>"
proof -
  have step: "research_loop numstr P query messages k lastResponse lastProvider
     = research_loop numstr P query messages (Suc k) lastResponse lastProvider" if "k < 3" for k
  proof -
    obtain m where "request_response P query messages (k + 1) lastResponse = Inl (Error m)"
      using request_response_outage[OF assms] by blast
    then show ?thesis
      using that research_loop_throw[of k P query messages lastResponse m numstr lastProvider]
      by (simp add: MAX_REPAIR_ATTEMPTS_def)
  qed
  have "research_loop numstr P query messages 0 lastResponse lastProvider
     = research_loop numstr P query messages (Suc (Suc (Suc 0))) lastResponse lastProvider"
    using step[of 0] step[of "Suc 0"] step[of "Suc (Suc 0)"] by simp
  then have "research_loop numstr P query messages 0 lastResponse lastProvider
     = research_loop numstr P query messages 3 lastResponse lastProvider"
    by (simp add: numeral_3_eq_3)
  then show ?thesis
    by (simp add: research_loop_end MAX_REPAIR_ATTEMPTS_def)
qed

lemma researchCompletion_outage:
  assumes "all_throw P"
  shows "researchCompletion numstr P query entityData
     = Inr \<lparr>res_result = fallback_result, res_provider = Openrouter, res_attempts = 3\<rparr>"
  by (simp add: researchCompletion_def research_loop_outage[OF assms])

lemma worker_limiter_value:
  "worker_limiter = Inr \<lparr>lim_concurrency = 5, lim_maxRetries = 3, lim_initialBackoffMs = 1000\<rparr>"
  by (simp add: worker_limiter_def createRateLimiter_def MAX_RETRIES_def INITIAL_BACKOFF_MS_def)

lemma retry_loop_first_ok:
  assumes "0 < lim_maxRetries L"
      and "processor item index 0 = (Inr r, es)"
      and "onProgress tot item (Some r) None = (None, cs)"
  shows "retry_loop L processor onProgress tot item index 0 None
     = (Inr \<lparr>out_item = item, out_result = Some r, out_error = None\<rparr>,
        Attempt 0 # map Emitted (es @ cs))"
  using assms by (subst retry_loop.simps) (simp add: try_attempt_def)

lemma processRows_single_outage:
  assumes "all_throw (env 0 0)"
  shows "processRows numstr env clock final_clock query [row]
     = (Inr [row_id row \<mapsto> toResearchResult (final_clock 0) fallback_result],
        [\<lparr>wp_rowId = row_id row, wp_status = StatusProcessing, wp_result = None, wp_error = None\<rparr>,
         \<lparr>wp_rowId = row_id row, wp_status = StatusCompleted,
          wp_result = Some (toResearchResult (clock row) fallback_result), wp_error = None\<rparr>])"
proof -
  let ?L = "\<lparr>lim_concurrency = 5, lim_maxRetries = 3, lim_initialBackoffMs = 1000\<rparr>"
  let ?done = "\<lparr>rr_row = row, rr_research = fallback_result, rr_provider = Openrouter\<rparr>"
  let ?es = "[Notify \<lparr>wp_rowId = row_id row, wp_status = StatusProcessing,
               wp_result = None, wp_error = None\<rparr>]"
  let ?cs = "[SetResult (row_id row) (toResearchResult (clock row) fallback_result),
            Notify \<lparr>wp_rowId = row_id row, wp_status = StatusCompleted,
                    wp_result = Some (toResearchResult (clock row) fallback_result),
                    wp_error = None\<rparr>]"
  have p: "row_processor numstr env query row 0 0 = (Inr ?done, ?es)"
    by (simp add: row_processor_def researchCompletion_outage[OF assms])
  have c: "row_progress clock (Suc 0) row (Some ?done) None = (None, ?cs)"
    by (simp add: row_progress_def)
  have r: "retry_loop ?L (row_processor numstr env query) (row_progress clock) (Suc 0) row 0 0 None
     = (Inr \<lparr>out_item = row, out_result = Some ?done, out_error = None\<rparr>,
        Attempt 0 # map Emitted (?es @ ?cs))"
    using retry_loop_first_ok[where L = ?L and processor = "row_processor numstr env query"
        and onProgress = "row_progress clock" and item = row and index = 0 and tot = "Suc 0", OF _ p c]
    by simp
  have ri: "run_items ?L (row_processor numstr env query) (row_progress clock) [row]
     = [(Inr \<lparr>out_item = row, out_result = Some ?done, out_error = None\<rparr>,
        Attempt 0 # map Emitted (?es @ ?cs))]"
    by (simp add: run_items_def r)
  show ?thesis
    by (simp add: processRows_def worker_limiter_value processWithRetry_def ri Let_def)
qed

lemma all_throw_outage: "all_throw outage"
  by (simp add: all_throw_def outage_def)

text \<open>
  C1, as amended. When every call of the primary backend and every call of the
  secondary backend throws an \<open>Error\<close>, the research call of a row does not reject: each of its
  three attempts ends in the \<open>catch\<close> block of the loop, and it resolves with the fixed
  degraded result (confidence 0.1), provider \<open>openrouter\<close>, after 3 attempts. The row
  worker, given that one row, emits a \<open>processing\<close> event and then a \<open>completed\<close> event
  carrying the degraded result, no \<open>error\<close> event, and the mapping it returns holds the
  degraded result under the id of the row.
\<close>

theorem outage_gives_degraded_result:
  assumes "all_throw P" and "all_throw (env 0 0)"
  shows "researchCompletion numstr P query entityData
           = Inr \<lparr>res_result = fallback_result, res_provider = Openrouter, res_attempts = 3\<rparr>
       \<and> processRows numstr env clock final_clock query [row]
           = (Inr [row_id row \<mapsto> toResearchResult (final_clock 0) fallback_result],
              [\<lparr>wp_rowId = row_id row, wp_status = StatusProcessing,
                wp_result = None, wp_error = None\<rparr>,
               \<lparr>wp_rowId = row_id row, wp_status = StatusCompleted,
                wp_result = Some (toResearchResult (clock row) fallback_result),
                wp_error = None\<rparr>])"
  using researchCompletion_outage[OF assms(1)]
    processRows_single_outage[where env = env, OF assms(2)] by simp

theorem outage_gives_degraded_result_witness:
  "all_throw outage
   \<and> researchCompletion (\<lambda>q. []) outage (js ''Who runs it?'') (row_data the_row)
       = Inr \<lparr>res_result = fallback_result, res_provider = Openrouter, res_attempts = 3\<rparr>
   \<and> fst (processRows (\<lambda>q. []) (\<lambda>index attempt. outage) (\<lambda>r. 1700) (\<lambda>k. 1800)
            (js ''Who runs it?'') [the_row])
       = Inr [row_id the_row \<mapsto> toResearchResult 1800 fallback_result]"
  using outage_gives_degraded_result[where P = outage and env = "\<lambda>index attempt. outage"
      and numstr = "\<lambda>q. []" and query = "js ''Who runs it?''" and entityData = "row_data the_row"
      and clock = "\<lambda>r. 1700" and final_clock = "\<lambda>k. 1800" and row = the_row]
    all_throw_outage
  by simp

text \<open>
  C1 as stated fails: with both backends down, \<open>researchCompletion\<close> resolves (it does
  not reject), the events of the row are \<open>processing\<close> and \<open>completed\<close>, none is an
  \<open>error\<close>, and the returned mapping contains the row.
\<close>

theorem outage_counterexample:
  "all_throw outage
   \<and> researchCompletion (\<lambda>q. []) outage (js ''Who runs it?'') (row_data the_row)
       = Inr \<lparr>res_result = fallback_result, res_provider = Openrouter, res_attempts = 3\<rparr>
   \<and> map wp_status (snd (processRows (\<lambda>q. []) (\<lambda>index attempt. outage) (\<lambda>r. 1700) (\<lambda>k. 1800)
            (js ''Who runs it?'') [the_row]))
       = [StatusProcessing, StatusCompleted]
   \<and> (case fst (processRows (\<lambda>q. []) (\<lambda>index attempt. outage) (\<lambda>r. 1700) (\<lambda>k. 1800)
            (js ''Who runs it?'') [the_row]) of
         Inl e \<Rightarrow> None
       | Inr results \<Rightarrow> results (row_id the_row))
       = Some (toResearchResult 1800 fallback_result)"
  using researchCompletion_outage[OF all_throw_outage]
    processRows_single_outage[where env = "\<lambda>index attempt. outage"
      and numstr = "\<lambda>q. []" and query = "js ''Who runs it?''"
      and clock = "\<lambda>r. 1700" and final_clock = "\<lambda>k. 1800" and row = the_row]
    all_throw_outage
  by simp

end
